theory Spec2Isabelle
  imports Main "HOL-Library.AList"
begin

section \<open>Errors\<close>

text \<open>
  The exceptions and promise rejections of \<^verbatim>\<open>lib/sync.js\<close> and \<^verbatim>\<open>lib/listener.js\<close> as values.
  \<open>InterruptedError\<close> is the class of that name declared in \<^verbatim>\<open>sync.js\<close>;
  \<open>AssertionError\<close> is what \<^verbatim>\<open>assert\<close> throws; \<open>TypeError\<close> is what a property read on
  \<^verbatim>\<open>undefined\<close> throws, and the call of a value that is not a function; \<open>Error msg\<close>
  is any other error (a rejected request, a failing plugin,
  \<^verbatim>\<open>new Error('not registered')\<close>).
\<close>

datatype error = InterruptedError | AssertionError | TypeError | Error string

text \<open>\<^verbatim>\<open>InterruptedError.prototype.resume = 5000\<close>\<close>

definition resume :: int where
  "resume = 5000"

section \<open>Listener (lib/listener.js)\<close>

text \<open>
  An active registration is the object \<^verbatim>\<open>pick(s, 'id', 'key', 'path')\<close>. The \<^verbatim>\<open>key\<close> is
  \<^verbatim>\<open>undefined\<close> (\<open>None\<close>) for a subscription without a credential. A pending registration
  carries in addition the \<^verbatim>\<open>resolve\<close>/\<^verbatim>\<open>reject\<close> callbacks of the promise created by
  \<^verbatim>\<open>add\<close>; the model identifies that pair of callbacks by the number \<open>caller\<close>.
\<close>

record registration =
  id' :: string
  key :: "string option"
  path :: string

record pending_registration = registration +
  caller :: nat

text \<open>
  What the listener does to the outside: the events it emits and the promise callbacks
  it invokes, in order.
\<close>

datatype event =
    Emit_added registration
  | Emit_updated registration
  | Emit_error registration string
  | Call_resolve nat registration
  | Call_reject nat registration

record listener =
  current :: "registration list"
  pending :: "pending_registration list"
  emitted :: "event list"

text \<open>
  Modelled from the spec: \<^verbatim>\<open>common.pick\<close>, \<^verbatim>\<open>common.find\<close> and \<^verbatim>\<open>common.findIndex\<close>
  (\<^verbatim>\<open>lib/common.js\<close>) are not among the sources. \<open>pick\<close> copies the three named
  properties; \<open>findIndex\<close> is the linear scan that returns the position of the first
  element satisfying the predicate, or \<open>-1\<close>; \<open>find_first\<close> returns that element, or
  \<^verbatim>\<open>undefined\<close>.
\<close>

definition pick :: "'a registration_scheme \<Rightarrow> registration" where
  "pick s = \<lparr>id' = id' s, key = key s, path = path s\<rparr>"

fun findIndex :: "'a list \<Rightarrow> ('a \<Rightarrow> bool) \<Rightarrow> int" where
  "findIndex [] p = -1"
| "findIndex (x # xs) p =
     (if p x then 0 else (let i = findIndex xs p in if i = -1 then -1 else i + 1))"

fun find_first :: "'a list \<Rightarrow> ('a \<Rightarrow> bool) \<Rightarrow> 'a option" where
  "find_first [] p = None"
| "find_first (x # xs) p = (if p x then Some x else find_first xs p)"

text \<open>
  \<^verbatim>\<open>function by(key, topic)\<close>: with a falsy topic (\<^verbatim>\<open>undefined\<close> or the empty string) the
  predicate compares the local id, otherwise credential and path. Every call in the
  file passes two arguments, so \<^verbatim>\<open>arguments.length === 1\<close> is never the deciding test.
\<close>

definition by_fn :: "string option \<Rightarrow> string option \<Rightarrow> 'a registration_scheme \<Rightarrow> bool" where
  "by_fn k topic =
     (if topic = None \<or> topic = Some ''''
      then (\<lambda>s. Some (id' s) = k)
      else (\<lambda>s. key s = k \<and> Some (path s) = topic))"

text \<open>
  \<^verbatim>\<open>function remove(list, key, topic)\<close>: splices the first match out of the list and
  returns it, or returns \<^verbatim>\<open>null\<close>. The model returns the result and the list as
  mutated.
\<close>

definition remove_l ::
  "'a registration_scheme list \<Rightarrow> string option \<Rightarrow> string option
     \<Rightarrow> 'a registration_scheme option \<times> 'a registration_scheme list" where
  "remove_l list k topic =
     (let idx = findIndex list (by_fn k topic)
      in if idx \<noteq> -1
         then (Some (list ! nat idx), take (nat idx) list @ drop (Suc (nat idx)) list)
         else (None, list))"

lemma findIndex_range: "findIndex xs p = -1 \<or> (0 \<le> findIndex xs p \<and> findIndex xs p < int (length xs))"
  by (induction xs) (auto simp: Let_def)

lemma remove_l_length:
  "remove_l list k topic = (Some s, rest) \<Longrightarrow> length rest < length list"
  using findIndex_range [of list "by_fn k topic"]
  by (auto simp: remove_l_def Let_def split: if_splits)

text \<open>
  \<^verbatim>\<open>Listener.prototype.resolve\<close>: the \<^verbatim>\<open>while\<close> loop runs as long as \<^verbatim>\<open>remove\<close> finds a
  pending registration for the pair.
\<close>

function resolve :: "string option \<Rightarrow> string option \<Rightarrow> listener \<Rightarrow> listener" where
  "resolve k topic l =
     (case remove_l (pending l) k topic of
        (None, _) \<Rightarrow> l
      | (Some s, rest) \<Rightarrow>
          (let data = pick s
           in resolve k topic
                (l\<lparr>pending := rest,
                   current := current l @ [data],
                   emitted := emitted l @ [Call_resolve (caller s) data, Emit_added data]\<rparr>)))"
  by pat_completeness auto
termination
  by (relation "measure (\<lambda>(k, topic, l). length (pending l))")
     (auto dest: remove_l_length [OF sym])

text \<open>
  The body of the loop of \<open>resolve\<close>, seen from outside, for the pending registration
  \<open>s\<close> it has removed: \<^verbatim>\<open>s.resolve(data)\<close>, then \<^verbatim>\<open>this.emit('added', data)\<close>.
\<close>

definition settle :: "pending_registration \<Rightarrow> event list" where
  "settle s = [Call_resolve (caller s) (pick s), Emit_added (pick s)]"

text \<open>
  \<^verbatim>\<open>Listener.prototype.reject\<close>. The model records the \<open>error\<close> event and goes on, as
  the listener does when a handler for the event is registered; with no handler
  registered, \<^verbatim>\<open>emit('error', ...)\<close> throws.
\<close>

function reject :: "string option \<Rightarrow> string option \<Rightarrow> string \<Rightarrow> listener \<Rightarrow> listener" where
  "reject k topic reason l =
     (case remove_l (pending l) k topic of
        (None, _) \<Rightarrow> l
      | (Some s, rest) \<Rightarrow>
          (let data = pick s
           in reject k topic reason
                (l\<lparr>pending := rest,
                   emitted := emitted l @ [Call_reject (caller s) data, Emit_error data reason]\<rparr>)))"
  by pat_completeness auto
termination
  by (relation "measure (\<lambda>(k, topic, reason, l). length (pending l))")
     (auto dest: remove_l_length [OF sym])

text \<open>
  \<^verbatim>\<open>Listener.prototype.subscribed(subscriptions, errors)\<close>. A confirmed subscription is
  \<^verbatim>\<open>{apiKey, topics}\<close>, a failure \<^verbatim>\<open>{apiKey, topic, error}\<close>; either argument may be
  absent.
\<close>

record confirmation =
  apiKey :: "string option"
  topics :: "string list"

record failure =
  f_apiKey :: "string option"
  f_topic :: "string option"
  f_error :: string

definition subscribed ::
  "confirmation list option \<Rightarrow> failure list option \<Rightarrow> listener \<Rightarrow> listener" where
  "subscribed subscriptions errors l =
     (let l1 = (case subscriptions of
                  None \<Rightarrow> l
                | Some subs \<Rightarrow>
                    fold (\<lambda>subscription. fold (\<lambda>t. resolve (apiKey subscription) (Some t))
                                              (topics subscription)) subs l)
      in case errors of
           None \<Rightarrow> l1
         | Some errs \<Rightarrow> fold (\<lambda>e. reject (f_apiKey e) (f_topic e) (f_error e)) errs l1)"

text \<open>\<^verbatim>\<open>Listener.prototype.register\<close>\<close>

definition register :: "registration \<Rightarrow> nat \<Rightarrow> listener \<Rightarrow> listener" where
  "register subscription cb l =
     l\<lparr>pending := pending l @
         [\<lparr>id' = id' subscription, key = key subscription, path = path subscription,
           caller = cb\<rparr>]\<rparr>"

text \<open>
  \<^verbatim>\<open>Listener.prototype.updated(data)\<close>: the loop asks \<^verbatim>\<open>find\<close> for a match in
  \<open>current\<close> and emits \<open>updated\<close> for it, as long as \<^verbatim>\<open>find\<close> returns one. The loop
  may not return, so the model is a partial function: \<open>None\<close> is "never returns". The
  handlers of the event are outside the listener; the model records the event and
  leaves \<open>current\<close> to the listener's own methods.
\<close>

record notification =
  n_apiKey :: "string option"
  n_topic :: "string option"
  n_version :: int

partial_function (option) updated_loop :: "(registration \<Rightarrow> bool) \<Rightarrow> listener \<Rightarrow> listener option" where
  "updated_loop predicate l =
     (case find_first (current l) predicate of
        None \<Rightarrow> Some l
      | Some s \<Rightarrow> updated_loop predicate (l\<lparr>emitted := emitted l @ [Emit_updated s]\<rparr>))"

definition Listener_updated :: "notification \<Rightarrow> listener \<Rightarrow> listener option" where
  "Listener_updated data l = updated_loop (by_fn (n_apiKey data) (n_topic data)) l"

text \<open>
  \<^verbatim>\<open>Listener.prototype.remove(subscription)\<close>. The stream's \<^verbatim>\<open>unsubscribe\<close> is the remote
  channel: a parameter that maps the request \<^verbatim>\<open>{apiKey, topic}\<close> to the error passed to
  the callback, if any. The result is the settlement of the returned promise and the
  listener as left behind.
\<close>

definition Listener_remove ::
  "(string option \<Rightarrow> string \<Rightarrow> error option) \<Rightarrow> string option \<Rightarrow> listener
     \<Rightarrow> (error + registration) \<times> listener" where
  "Listener_remove unsubscribe subscription_id l =
     (case remove_l (current l) subscription_id None of
        (None, _) \<Rightarrow> (Inl (Error ''not registered''), l)
      | (Some data, rest) \<Rightarrow>
          (let l' = l\<lparr>current := rest\<rparr>
           in case unsubscribe (key data) (path data) of
                Some err \<Rightarrow> (Inl err, l')
              | None \<Rightarrow> (Inr data, l')))"

section \<open>Session (lib/sync.js)\<close>

subsection \<open>Data\<close>

text \<open>
  A version manifest is a JavaScript object from item keys to version numbers; the
  model keeps its properties in enumeration order, each key once (the model does not
  move integer-like keys to the front, as JavaScript does). An item payload is
  modelled by the four properties the session reads: \<^verbatim>\<open>key\<close>, \<^verbatim>\<open>version\<close>,
  \<^verbatim>\<open>data.parentItem\<close> and \<^verbatim>\<open>meta.numChildren\<close> (zero when \<^verbatim>\<open>meta\<close> is absent). The
  \<^verbatim>\<open>children\<close> property that \<^verbatim>\<open>receive\<close> stores on an item after fetching its children
  is not tracked: nothing in the session reads it. Neither is the attachment cache,
  which only \<^verbatim>\<open>Session.prototype.attachment\<close> touches.
\<close>

type_synonym versions = "(string \<times> int) list"

record item =
  item_key :: string
  item_version :: int
  parentItem :: "string option"
  numChildren :: int

text \<open>
  The responses of the Zotero client. An item message carries \<^verbatim>\<open>type\<close>, \<^verbatim>\<open>version\<close> and
  \<^verbatim>\<open>data\<close>. A versions message carries in addition \<^verbatim>\<open>unmodified\<close>, \<^verbatim>\<open>multi\<close>, \<^verbatim>\<open>done\<close> and
  the result of \<^verbatim>\<open>next()\<close>: the following page, or the error its promise is rejected
  with. The pages of a manifest come with its first message, so a message is a finite
  chain of pages.
\<close>

record imessage =
  im_type :: string
  im_version :: int
  im_data :: "item list"

datatype vmessage =
  VMessage (unmodified: bool) (vm_type: string) (vm_version: int) (vm_data: versions)
    (multi: bool) (is_done: bool) (next_page: "error + vmessage")

record plugin =
  plugin_name :: string
  plugin_options :: "string option"

record subscription =
  s_version :: int
  s_versions :: versions
  plugins :: "plugin list"

record session =
  subscription :: subscription
  items :: "string \<rightharpoonup> item"
  created :: "string list"
  updated :: "string list"
  deleted :: "string list"
  version :: "int option"
  versions :: "versions option"

text \<open>
  Everything outside the process, over a state \<open>'w\<close> of the outside world that each
  request may change: the three requests the session sends through
  \<^verbatim>\<open>Session.prototype.get\<close> (the manifest request of \<^verbatim>\<open>update\<close>, \<^verbatim>\<open>fetch(batch)\<close>,
  \<^verbatim>\<open>children(item)\<close>), each answered by a message or rejected with an error;
  \<^verbatim>\<open>B.delay(ms)\<close>; and the plugin registry (\<^verbatim>\<open>plugins.available\<close>, and the outcome of
  \<^verbatim>\<open>plugins.use(name, options).process(session, callback)\<close>).
\<close>

record 'w env =
  get_versions :: "'w \<Rightarrow> (error + vmessage) \<times> 'w"
  fetch :: "string list \<Rightarrow> 'w \<Rightarrow> (error + imessage) \<times> 'w"
  children :: "string \<Rightarrow> 'w \<Rightarrow> (error + imessage) \<times> 'w"
  delay :: "int \<Rightarrow> 'w \<Rightarrow> 'w"
  available :: "string \<Rightarrow> bool"
  process :: "plugin \<Rightarrow> session \<Rightarrow> 'w \<Rightarrow> error option \<times> 'w"

definition MAX_BATCH_SIZE :: nat where
  "MAX_BATCH_SIZE = 50"

text \<open>\<^verbatim>\<open>function Session(subscription, synchronizer)\<close>\<close>

definition Session :: "subscription \<Rightarrow> session" where
  "Session sub =
     \<lparr>subscription = sub, items = Map.empty, created = [], updated = [], deleted = [],
      version = None, versions = None\<rparr>"

text \<open>The \<^verbatim>\<open>modified\<close> getter.\<close>

definition modified :: "session \<Rightarrow> bool" where
  "modified s =
     (case version s of
        None \<Rightarrow> False
      | Some v \<Rightarrow> v > s_version (subscription s))"

subsection \<open>diff\<close>

text \<open>
  \<^verbatim>\<open>obj.hasOwnProperty(key)\<close>, called on a manifest \<open>obj\<close>. The method is the one
  inherited from \<^verbatim>\<open>Object.prototype\<close>, unless the manifest has a key named
  \<^verbatim>\<open>hasOwnProperty\<close> of its own: then the property read yields that key's version
  number, and calling a number throws a TypeError.
\<close>

definition hasOwnProperty :: "versions \<Rightarrow> string \<Rightarrow> error + bool" where
  "hasOwnProperty obj k =
     (if map_of obj ''hasOwnProperty'' \<noteq> None then Inl TypeError
      else Inr (map_of obj k \<noteq> None))"

text \<open>
  The first loop of \<^verbatim>\<open>Session.prototype.diff\<close>, over the keys of \<open>versions\<close>; the pair
  is (\<open>created\<close>, \<open>updated\<close>). The result is the error thrown, if any, and the two
  arrays as they are then. A comparison with \<^verbatim>\<open>undefined\<close> is false.
\<close>

fun diff_current ::
  "versions \<Rightarrow> versions \<Rightarrow> string list \<Rightarrow> string list \<times> string list
     \<Rightarrow> error option \<times> string list \<times> string list" where
  "diff_current vs earlier [] (c, u) = (None, c, u)"
| "diff_current vs earlier (k # ks) (c, u) =
     (case hasOwnProperty earlier k of
        Inl e \<Rightarrow> (Some e, c, u)
      | Inr present \<Rightarrow>
          if present then
            (if (case map_of vs k of
                   Some v \<Rightarrow> (case map_of earlier k of Some e \<Rightarrow> v > e | None \<Rightarrow> False)
                 | None \<Rightarrow> False)
             then diff_current vs earlier ks (c, u @ [k])
             else diff_current vs earlier ks (c, u))
          else diff_current vs earlier ks (c @ [k], u))"

text \<open>The second loop, over the keys of \<open>earlier\<close>; the array is \<open>deleted\<close>.\<close>

fun diff_earlier ::
  "versions \<Rightarrow> string list \<Rightarrow> string list \<Rightarrow> error option \<times> string list" where
  "diff_earlier vs [] d = (None, d)"
| "diff_earlier vs (k # ks) d =
     (case hasOwnProperty vs k of
        Inl e \<Rightarrow> (Some e, d)
      | Inr present \<Rightarrow>
          if \<not> present then diff_earlier vs ks (d @ [k]) else diff_earlier vs ks d)"

text \<open>
  \<^verbatim>\<open>Session.prototype.diff(versions, earlier)\<close>: an absent argument defaults to the
  session's manifest and to the subscription's versions; the assertion fails when no
  manifest is there. The three arrays are emptied after the assertions, before the
  keys are gone over. The result is the error thrown, if any, and the session as it is then.
\<close>

definition diff ::
  "versions option \<Rightarrow> versions option \<Rightarrow> session \<Rightarrow> error option \<times> session" where
  "diff versions_arg earlier_arg s =
     (let vs_opt = (case versions_arg of Some v \<Rightarrow> Some v | None \<Rightarrow> versions s);
          earlier = (case earlier_arg of Some e \<Rightarrow> e | None \<Rightarrow> s_versions (subscription s))
      in case vs_opt of
           None \<Rightarrow> (Some AssertionError, s)
         | Some vs \<Rightarrow>
             (case diff_current vs earlier (map fst vs) ([], []) of
                (Some e, c, u) \<Rightarrow> (Some e, s\<lparr>created := c, updated := u, deleted := []\<rparr>)
              | (None, c, u) \<Rightarrow>
                  (case diff_earlier vs (map fst earlier) [] of
                     (err, d) \<Rightarrow> (err, s\<lparr>created := c, updated := u, deleted := d\<rparr>))))"

subsection \<open>check and update\<close>

text \<open>\<^verbatim>\<open>Session.prototype.check(version)\<close>: returns \<open>true\<close> or throws.\<close>

definition check :: "session \<Rightarrow> int \<Rightarrow> error + bool" where
  "check s v =
     (if version s = None then Inr True
      else if version s = Some v then Inr True
      else Inl InterruptedError)"

text \<open>
  Modelled from the spec: \<^verbatim>\<open>common.extend\<close> (\<^verbatim>\<open>lib/common.js\<close>) is not among the
  sources. It merges the properties of the continuation page into the manifest: an
  existing key gets the new value, a new key is added after the others.
\<close>

fun extend :: "versions \<Rightarrow> versions \<Rightarrow> versions" where
  "extend vs [] = vs"
| "extend vs ((k, v) # rest) = extend (AList.update k v vs) rest"

text \<open>
  The \<^verbatim>\<open>while (!message.done)\<close> loop of \<^verbatim>\<open>update\<close>. The result is the error thrown, if
  any, and the session as left behind.
\<close>

fun update_pages :: "vmessage \<Rightarrow> session \<Rightarrow> error option \<times> session" where
  "update_pages (VMessage um ty ver dat mu dn nxt) s =
     (if \<not> dn then
        (case nxt of
           Inl e \<Rightarrow> (Some e, s)
         | Inr message \<Rightarrow>
             (case check s (vm_version message) of
                Inl e \<Rightarrow> (Some e, s)
              | Inr _ \<Rightarrow>
                  if vm_type message \<noteq> ''json'' then (Some AssertionError, s)
                  else update_pages message
                         (s\<lparr>versions := (case versions s of
                                            None \<Rightarrow> None
                                          | Some vs \<Rightarrow> Some (extend vs (vm_data message)))\<rparr>)))
      else (None, s))"

text \<open>\<^verbatim>\<open>Session.prototype.update\<close>\<close>

definition update :: "'w env \<Rightarrow> session \<Rightarrow> 'w \<Rightarrow> error option \<times> session \<times> 'w" where
  "update env s w =
     (let s1 = s\<lparr>version := None\<rparr>
      in case get_versions env w of
           (Inl e, w1) \<Rightarrow> (Some e, s1, w1)
         | (Inr message, w1) \<Rightarrow>
             if unmodified message then (None, s1, w1)
             else if vm_type message \<noteq> ''json'' then (Some AssertionError, s1, w1)
             else
               (let s2 = s1\<lparr>version := Some (vm_version message),
                            versions := Some (vm_data message)\<rparr>
                in case (if multi message then update_pages message s2 else (None, s2)) of
                     (Some e, s3) \<Rightarrow> (Some e, s3, w1)
                   | (None, s3) \<Rightarrow>
                       (case diff None None s3 of
                          (err, s4) \<Rightarrow> (err, s4, w1))))"

subsection \<open>receive and download\<close>

text \<open>The helpers \<^verbatim>\<open>getParent\<close> and \<^verbatim>\<open>hasChildren\<close>: the value of the property, read as a truth value.\<close>

definition getParent :: "item \<Rightarrow> string option" where
  "getParent it =
     (case parentItem it of
        None \<Rightarrow> None
      | Some p \<Rightarrow> if p = [] then None else Some p)"

definition hasChildren :: "item \<Rightarrow> bool" where
  "hasChildren it = (numChildren it \<noteq> 0)"

text \<open>
  The head of \<^verbatim>\<open>Session.prototype.receive\<close>: the version check, then the assertion on
  the message type; it yields the items to merge.
\<close>

definition receive_head :: "session \<Rightarrow> imessage \<Rightarrow> error + item list" where
  "receive_head s message =
     (case check s (im_version message) of
        Inl e \<Rightarrow> Inl e
      | Inr _ \<Rightarrow>
          if im_type message \<noteq> ''json'' then Inl AssertionError
          else Inr (im_data message))"

text \<open>\<^verbatim>\<open>if (keys.indexOf(parent) === -1) keys.push(parent)\<close>, when \<open>keys\<close> is defined and the item names a parent.\<close>

definition push_parent :: "item \<Rightarrow> string list option \<Rightarrow> string list option" where
  "push_parent it keys =
     (case keys of
        None \<Rightarrow> None
      | Some ks \<Rightarrow>
          (case getParent it of
             None \<Rightarrow> Some ks
           | Some parent \<Rightarrow> if parent \<notin> set ks then Some (ks @ [parent]) else Some ks))"

text \<open>
  The \<^verbatim>\<open>for\<close> loop of \<^verbatim>\<open>receive\<close> over the items still to merge. For an item with
  children it requests them and runs \<^verbatim>\<open>receive\<close> on the answer with \<open>keys\<close> undefined:
  its head, then this loop again. The recursion follows the answers of the server, so
  the function is partial: \<open>None\<close> means that it never returns. A result is the error
  thrown (if any), the session, the key list as mutated, and the world.
\<close>

partial_function (option) receive_loop ::
  "'w env \<Rightarrow> item list \<Rightarrow> string list option \<Rightarrow> session \<Rightarrow> 'w
     \<Rightarrow> (error option \<times> session \<times> string list option \<times> 'w) option" where
  "receive_loop env its keys s w =
     (case its of
        [] \<Rightarrow> Some (None, s, keys, w)
      | it # rest \<Rightarrow>
          (let s1 = s\<lparr>items := (items s)(item_key it \<mapsto> it)\<rparr>;
               keys1 = push_parent it keys
           in if hasChildren it then
                (case children env (item_key it) w of
                   (Inl e, w1) \<Rightarrow> Some (Some e, s1, keys1, w1)
                 | (Inr message, w1) \<Rightarrow>
                     (case receive_head s1 message of
                        Inl e \<Rightarrow> Some (Some e, s1, keys1, w1)
                      | Inr its' \<Rightarrow>
                          Option.bind (receive_loop env its' None s1 w1)
                            (\<lambda>r. case r of
                                   (Some e, s2, _, w2) \<Rightarrow> Some (Some e, s2, keys1, w2)
                                 | (None, s2, _, w2) \<Rightarrow> receive_loop env rest keys1 s2 w2)))
              else receive_loop env rest keys1 s1 w))"

text \<open>\<^verbatim>\<open>Session.prototype.receive(message, keys)\<close>\<close>

definition receive ::
  "'w env \<Rightarrow> imessage \<Rightarrow> string list option \<Rightarrow> session \<Rightarrow> 'w
     \<Rightarrow> (error option \<times> session \<times> string list option \<times> 'w) option" where
  "receive env message keys s w =
     (case receive_head s message of
        Inl e \<Rightarrow> Some (Some e, s, keys, w)
      | Inr its \<Rightarrow> receive_loop env its keys s w)"

text \<open>
  The inner \<^verbatim>\<open>for (; i < keys.length; ++i)\<close> loop of \<^verbatim>\<open>download\<close>: it selects the next
  batch and returns the cursor with it. Reading \<^verbatim>\<open>this.versions[key]\<close> throws a
  TypeError when the session has no manifest.
\<close>

function select_batch ::
  "session \<Rightarrow> string list \<Rightarrow> nat \<Rightarrow> string list \<Rightarrow> error + (nat \<times> string list)" where
  "select_batch s keys i batch =
     (if i < length keys then
        (let k = keys ! i;
             push = (let batch' = batch @ [k]
                     in if length batch' \<ge> MAX_BATCH_SIZE then Inr (i + 1, batch')
                        else select_batch s keys (i + 1) batch')
         in case items s k of
              None \<Rightarrow> push
            | Some it \<Rightarrow>
                (case versions s of
                   None \<Rightarrow> Inl TypeError
                 | Some vs \<Rightarrow>
                     if Some (item_version it) \<noteq> map_of vs k then push
                     else select_batch s keys (i + 1) batch))
      else Inr (i, batch))"
  by pat_completeness auto
termination
  by (relation "measure (\<lambda>(s, keys, i, batch). length keys - i)") auto

text \<open>
  The outer \<^verbatim>\<open>while (i < keys.length)\<close> loop of \<^verbatim>\<open>download\<close>. The key list may grow in
  \<^verbatim>\<open>receive\<close>, so the loop is a partial function. A result is the error thrown (if
  any), the session, the final key list, the world, and the batches passed to \<^verbatim>\<open>fetch\<close>
  so far, in order (the trace of the requests sent, which the world hides).
\<close>

partial_function (option) download_loop ::
  "'w env \<Rightarrow> string list \<Rightarrow> nat \<Rightarrow> session \<Rightarrow> 'w \<Rightarrow> string list list
     \<Rightarrow> (error option \<times> session \<times> string list \<times> 'w \<times> string list list) option" where
  "download_loop env keys i s w requested =
     (if i < length keys then
        (case select_batch s keys i [] of
           Inl e \<Rightarrow> Some (Some e, s, keys, w, requested)
         | Inr (i', batch) \<Rightarrow>
             if batch = [] then download_loop env keys i' s w requested
             else
               (case fetch env batch w of
                  (Inl e, w1) \<Rightarrow> Some (Some e, s, keys, w1, requested @ [batch])
                | (Inr message, w1) \<Rightarrow>
                    Option.bind (receive env message (Some keys) s w1)
                      (\<lambda>r. case r of
                             (err, s2, keys2, w2) \<Rightarrow>
                               (let keys' = (case keys2 of None \<Rightarrow> keys | Some ks \<Rightarrow> ks)
                                in case err of
                                     Some e \<Rightarrow> Some (Some e, s2, keys', w2, requested @ [batch])
                                   | None \<Rightarrow>
                                       download_loop env keys' i' s2 w2 (requested @ [batch])))))
      else Some (None, s, keys, w, requested))"

text \<open>
  \<^verbatim>\<open>Session.prototype.download(keys)\<close>: an absent \<open>keys\<close> defaults to
  \<^verbatim>\<open>this.updated.concat(this.created)\<close>.
\<close>

definition download ::
  "'w env \<Rightarrow> string list option \<Rightarrow> session \<Rightarrow> 'w
     \<Rightarrow> (error option \<times> session \<times> string list \<times> 'w \<times> string list list) option" where
  "download env keys_arg s w =
     (let keys = (case keys_arg of None \<Rightarrow> updated s @ created s | Some ks \<Rightarrow> ks)
      in if keys = [] then Some (None, s, keys, w, [])
         else download_loop env keys 0 s w [])"

subsection \<open>execute\<close>

text \<open>
  The \<^verbatim>\<open>try\<close> block of \<^verbatim>\<open>Session.prototype.execute\<close>: \<^verbatim>\<open>update\<close>, then \<^verbatim>\<open>download\<close>
  unless \<open>skip\<close> is set. The key list and the request trace of \<^verbatim>\<open>download\<close> are local
  to it and dropped.
\<close>

definition attempt ::
  "'w env \<Rightarrow> bool \<Rightarrow> session \<Rightarrow> 'w \<Rightarrow> (error option \<times> session \<times> 'w) option" where
  "attempt env skip s w =
     (case update env s w of
        (Some e, s1, w1) \<Rightarrow> Some (Some e, s1, w1)
      | (None, s1, w1) \<Rightarrow>
          if skip then Some (None, s1, w1)
          else map_option (\<lambda>(err, s2, keys, w2, requested). (err, s2, w2))
                 (download env None s1 w1))"

text \<open>
  \<^verbatim>\<open>Session.prototype.execute(skip, retry)\<close>: an absent \<open>retry\<close> is 3. The \<^verbatim>\<open>catch\<close>
  block rethrows when \<^verbatim>\<open>!retry\<close> or when the error is no InterruptedError; otherwise
  it waits \<^verbatim>\<open>error.resume\<close> milliseconds and calls \<^verbatim>\<open>execute(skip, --retry)\<close>.
\<close>

partial_function (option) execute ::
  "'w env \<Rightarrow> bool \<Rightarrow> int option \<Rightarrow> session \<Rightarrow> 'w \<Rightarrow> (error option \<times> session \<times> 'w) option" where
  "execute env skip retry_arg s w =
     (let retry = (case retry_arg of None \<Rightarrow> 3 | Some r \<Rightarrow> r)
      in case attempt env skip s w of
           None \<Rightarrow> None
         | Some (None, s', w') \<Rightarrow> Some (None, s', w')
         | Some (Some e, s', w') \<Rightarrow>
             if retry = 0 \<or> e \<noteq> InterruptedError then Some (Some e, s', w')
             else execute env skip (Some (retry - 1)) s' (delay env resume w'))"

section \<open>Synchronizer (lib/sync.js)\<close>

text \<open>
  \<^verbatim>\<open>Synchronizer.prototype.dispatch\<close> hands the plugins of the subscription to
  \<^verbatim>\<open>B.map\<close> with \<^verbatim>\<open>{concurrency: 1}\<close>. Its mapper returns \<^verbatim>\<open>null\<close> at once for a plugin
  that is not available, and for an available one a promise that is pending when the
  mapper returns. Bluebird's \<^verbatim>\<open>map\<close> with a concurrency limit goes through the list in
  order and calls the mapper as long as no mapped promise is pending; once one is
  pending, it puts the elements that remain into a queue. Each time the pending
  promise is fulfilled, it takes elements from the end of the queue (\<^verbatim>\<open>queue.pop()\<close>)
  and calls the mapper for them, until a promise is pending again. So of the
  available plugins the first of the list is processed first, and then the others
  from the last backwards. The error of a failing plugin is thrown again, which
  rejects the whole \<^verbatim>\<open>B.map\<close>: nothing more is taken from the queue.

  \<open>drain_queue\<close> gets the queue in the order in which its elements are taken.
\<close>

fun drain_queue ::
  "'w env \<Rightarrow> plugin list \<Rightarrow> session \<Rightarrow> 'w \<Rightarrow> error option \<times> 'w" where
  "drain_queue env [] s w = (None, w)"
| "drain_queue env (p # ps) s w =
     (if \<not> available env (plugin_name p) then drain_queue env ps s w
      else
        (case process env p s w of
           (Some e, w1) \<Rightarrow> (Some e, w1)
         | (None, w1) \<Rightarrow> drain_queue env ps s w1))"

fun dispatch_plugins ::
  "'w env \<Rightarrow> plugin list \<Rightarrow> session \<Rightarrow> 'w \<Rightarrow> error option \<times> 'w" where
  "dispatch_plugins env [] s w = (None, w)"
| "dispatch_plugins env (p # ps) s w =
     (if \<not> available env (plugin_name p) then dispatch_plugins env ps s w
      else
        (case process env p s w of
           (Some e, w1) \<Rightarrow> (Some e, w1)
         | (None, w1) \<Rightarrow> drain_queue env (rev ps) s w1))"

definition dispatch :: "'w env \<Rightarrow> session \<Rightarrow> 'w \<Rightarrow> error option \<times> 'w" where
  "dispatch env s w = dispatch_plugins env (plugins (subscription s)) s w"

text \<open>
  The calls that \<^verbatim>\<open>synchronize\<close> makes on the subscription object: \<^verbatim>\<open>sub.touch()\<close> and
  \<^verbatim>\<open>sub.update({version, versions})\<close>.
\<close>

datatype sub_call = Touch | Update "int option" "versions option"

text \<open>
  \<^verbatim>\<open>Synchronizer.prototype.synchronize(sub, skip)\<close>. A result is the error thrown (if
  any), the session, the world, and the calls made on the subscription, in order.
\<close>

definition synchronize ::
  "'w env \<Rightarrow> subscription \<Rightarrow> bool \<Rightarrow> 'w
     \<Rightarrow> (error option \<times> session \<times> 'w \<times> sub_call list) option" where
  "synchronize env sub skip w =
     (let session = Session sub
      in case execute env skip None session w of
           None \<Rightarrow> None
         | Some (Some e, s', w') \<Rightarrow> Some (Some e, s', w', [Touch])
         | Some (None, s', w') \<Rightarrow>
             if modified s' then
               (case (if \<not> skip then dispatch env s' w' else (None, w')) of
                  (Some e, w'') \<Rightarrow> Some (Some e, s', w'', [Touch])
                | (None, w'') \<Rightarrow>
                    Some (None, s', w'', [Touch, Update (version s') (versions s')]))
             else Some (None, s', w', [Touch]))"

text \<open>The unfolding equations of the partial functions are their code equations.\<close>

declare updated_loop.simps [code]
declare receive_loop.simps [code]
declare download_loop.simps [code]
declare execute.simps [code]

declare resolve.simps [simp del]
declare reject.simps [simp del]
declare select_batch.simps [simp del]
declare update_pages.simps [simp del]

section \<open>Notions used in the statements\<close>

text \<open>
  \<open>grows ps ks ks'\<close>: the key list \<open>ks'\<close> is \<open>ks\<close> with new keys appended at its end,
  each of them once, none of them in \<open>ks\<close> already, all of them from \<open>ps\<close>.
  \<open>keys_grow\<close> is the same for the optional \<open>keys\<close> argument of \<open>receive\<close>, and
  \<open>parents its\<close> are the parent keys that the items \<open>its\<close> name. \<open>receive_post\<close>,
  \<open>select_post\<close> and \<open>download_post\<close> relate the state before a call of the loop of
  \<open>receive\<close>, of the batch selection and of the loop of \<open>download\<close> to the state after
  it.
\<close>

definition grows :: "string set \<Rightarrow> string list \<Rightarrow> string list \<Rightarrow> bool" where
  "grows ps ks ks' \<longleftrightarrow>
     (\<exists>extra. ks' = ks @ extra \<and> distinct extra \<and> set extra \<inter> set ks = {} \<and> set extra \<subseteq> ps)"

definition keys_grow :: "string set \<Rightarrow> string list option \<Rightarrow> string list option \<Rightarrow> bool" where
  "keys_grow ps keys keys' \<longleftrightarrow>
     (case keys of
        None \<Rightarrow> keys' = None
      | Some ks \<Rightarrow> (\<exists>ks'. keys' = Some ks' \<and> grows ps ks ks'))"

definition parents :: "item list \<Rightarrow> string set" where
  "parents its = {p. \<exists>it\<in>set its. getParent it = Some p}"

definition receive_post ::
  "item list \<Rightarrow> string list option \<Rightarrow> session \<Rightarrow> error option \<Rightarrow> session
     \<Rightarrow> string list option \<Rightarrow> bool" where
  "receive_post its keys s err s' keys' \<longleftrightarrow>
     dom (items s) \<subseteq> dom (items s') \<and>
     version s' = version s \<and> versions s' = versions s \<and> subscription s' = subscription s \<and>
     created s' = created s \<and> updated s' = updated s \<and> deleted s' = deleted s \<and>
     keys_grow (parents its) keys keys' \<and>
     (err = None \<longrightarrow>
        item_key ` set its \<subseteq> dom (items s') \<and>
        (\<forall>ks'. keys' = Some ks' \<longrightarrow> parents its \<subseteq> set ks'))"

definition select_post ::
  "session \<Rightarrow> string list \<Rightarrow> nat \<Rightarrow> string list \<Rightarrow> nat \<Rightarrow> string list \<Rightarrow> bool" where
  "select_post s keys i batch i' batch' \<longleftrightarrow>
     i \<le> i' \<and> i' \<le> length keys \<and> (i < length keys \<longrightarrow> i < i') \<and>
     (\<exists>new. batch' = batch @ new \<and>
        (\<forall>j. i \<le> j \<and> j < i' \<longrightarrow> keys ! j \<in> set new \<or> keys ! j \<in> dom (items s))) \<and>
     (length batch < MAX_BATCH_SIZE \<and> length batch' < MAX_BATCH_SIZE \<longrightarrow> i' = length keys)"

definition download_post ::
  "string list \<Rightarrow> nat \<Rightarrow> session \<Rightarrow> string list list \<Rightarrow> error option \<Rightarrow> session
     \<Rightarrow> string list \<Rightarrow> string list list \<Rightarrow> bool" where
  "download_post keys i s requested err s' keys' requested' \<longleftrightarrow>
     dom (items s) \<subseteq> dom (items s') \<and>
     version s' = version s \<and> versions s' = versions s \<and> subscription s' = subscription s \<and>
     created s' = created s \<and> updated s' = updated s \<and> deleted s' = deleted s \<and>
     grows UNIV keys keys' \<and>
     (\<exists>new. requested' = requested @ new \<and>
        (err = None \<longrightarrow>
           (\<forall>j. i \<le> j \<and> j < length keys' \<longrightarrow>
              keys' ! j \<in> \<Union> (set ` set new) \<or> keys' ! j \<in> dom (items s'))))"

text \<open>
  \<open>is_cached s k\<close>: \<open>items\<close> holds a payload for \<open>k\<close>, and its version is the one
  that the manifest of the session gives for \<open>k\<close>. This is the test
  \<^verbatim>\<open>!item || item.version !== this.versions[key]\<close> of the batch selection, negated.
\<close>

definition is_cached :: "session \<Rightarrow> string \<Rightarrow> bool" where
  "is_cached s k \<longleftrightarrow>
     (case items s k of
        None \<Rightarrow> False
      | Some it \<Rightarrow>
          (case versions s of
             None \<Rightarrow> False
           | Some vs \<Rightarrow> map_of vs k = Some (item_version it)))"

text \<open>
  A state of the \<^verbatim>\<open>while\<close> loop of \<open>download\<close>: the key list, the cursor, the session,
  the world, and the batches requested so far. \<open>iteration env c\<close> is one pass of the
  loop from the state \<open>c\<close>, when there is one and it ends without an error: the batch
  selection, and for a batch that is not empty \<open>fetch\<close> and \<open>receive\<close>.
  \<open>visits env c c'\<close>: the loop, started in the state \<open>c\<close>, is in the state \<open>c'\<close> after
  some passes (or none).
\<close>

type_synonym 'w loop_state = "string list \<times> nat \<times> session \<times> 'w \<times> string list list"

definition iteration :: "'w env \<Rightarrow> 'w loop_state \<Rightarrow> 'w loop_state option" where
  "iteration env c =
     (case c of
        (keys, i, s, w, requested) \<Rightarrow>
          if i < length keys then
            (case select_batch s keys i [] of
               Inl e \<Rightarrow> None
             | Inr (i', batch) \<Rightarrow>
                 if batch = [] then Some (keys, i', s, w, requested)
                 else
                   (case fetch env batch w of
                      (Inl e, w1) \<Rightarrow> None
                    | (Inr message, w1) \<Rightarrow>
                        (case receive env message (Some keys) s w1 of
                           None \<Rightarrow> None
                         | Some (err, s2, keys2, w2) \<Rightarrow>
                             (let keys' = (case keys2 of None \<Rightarrow> keys | Some ks \<Rightarrow> ks)
                              in case err of
                                   Some e \<Rightarrow> None
                                 | None \<Rightarrow> Some (keys', i', s2, w2, requested @ [batch])))))
          else None)"

definition visits :: "'w env \<Rightarrow> 'w loop_state \<Rightarrow> 'w loop_state \<Rightarrow> bool" where
  "visits env c c' \<longleftrightarrow> rtranclp (\<lambda>a b. iteration env a = Some b) c c'"

text \<open>
  \<open>scanned env c new j k\<close>: the loop, started in the state \<open>c\<close>, comes to a state whose
  batch selection goes over the position \<open>j\<close> of the key list, and there the key \<open>k\<close>
  is either cached and left out of the batch, or not cached and put into the batch,
  which is one of the batches \<open>new\<close>.
\<close>

definition scanned :: "'w env \<Rightarrow> 'w loop_state \<Rightarrow> string list list \<Rightarrow> nat \<Rightarrow> string \<Rightarrow> bool" where
  "scanned env c new j k \<longleftrightarrow>
     (\<exists>ksa ia sa wa ra i' batch.
        visits env c (ksa, ia, sa, wa, ra) \<and>
        select_batch sa ksa ia [] = Inr (i', batch) \<and> ia \<le> j \<and> j < i' \<and>
        (is_cached sa k \<and> k \<notin> set batch \<or>
         \<not> is_cached sa k \<and> k \<in> set batch \<and> batch \<in> set new))"

text \<open>
  \<open>run_order env ps\<close>: the available plugins of \<open>ps\<close> in the order in which
  \<open>dispatch\<close> processes them: the first one, and then the others from the last
  backwards.
\<close>

definition run_order :: "'w env \<Rightarrow> plugin list \<Rightarrow> plugin list" where
  "run_order env ps =
     (case filter (\<lambda>p. available env (plugin_name p)) ps of
        [] \<Rightarrow> []
      | p # qs \<Rightarrow> p # rev qs)"


subsection \<open>A small library, for the examples\<close>

text \<open>
  Three payloads: the item \<open>X\<close>, which names the parent \<open>P\<close> and has one child; its
  parent \<open>P\<close>; and its child \<open>C\<close>. Any other key is answered with a plain item.
\<close>

definition payload :: "string \<Rightarrow> item" where
  "payload k =
     (if k = ''X'' then \<lparr>item_key = ''X'', item_version = 2, parentItem = Some ''P'', numChildren = 1\<rparr>
      else if k = ''C'' then \<lparr>item_key = ''C'', item_version = 2, parentItem = Some ''X'', numChildren = 0\<rparr>
      else \<lparr>item_key = k, item_version = 1, parentItem = None, numChildren = 0\<rparr>)"

text \<open>
  A server for the examples. The world is the number of requests answered so far. The
  library is at version 2 until \<open>changed_at\<close> requests have been answered and at
  version 3 from then on; the manifest lists \<open>X\<close> at the library's version; \<open>kids\<close>
  gives the children of a key. The plugins named \<open>failing\<close> and \<open>bad\<close> fail, each
  with its own error, any other succeeds, and the plugin named \<open>missing\<close> is not
  available.
\<close>

definition library :: "nat \<Rightarrow> (string \<Rightarrow> string list) \<Rightarrow> nat env" where
  "library changed_at kids =
     \<lparr>get_versions = (\<lambda>w.
        (Inr (VMessage False ''json'' (if w < changed_at then 2 else 3)
                [(''X'', if w < changed_at then 2 else 3)] False True
                (Inl (Error ''no more pages''))), w + 1)),
      fetch = (\<lambda>batch w.
        (Inr \<lparr>im_type = ''json'', im_version = (if w < changed_at then 2 else 3),
              im_data = map payload batch\<rparr>, w + 1)),
      children = (\<lambda>k w.
        (Inr \<lparr>im_type = ''json'', im_version = (if w < changed_at then 2 else 3),
              im_data = map payload (kids k)\<rparr>, w + 1)),
      delay = (\<lambda>ms w. w),
      available = (\<lambda>n. n \<noteq> ''missing''),
      process = (\<lambda>p s w.
        (if plugin_name p = ''failing'' then Some (Error ''plugin failed'')
         else if plugin_name p = ''bad'' then Some (Error ''bad failed'')
         else None, w))\<rparr>"

definition kids_tree :: "string \<Rightarrow> string list" where
  "kids_tree k = (if k = ''X'' then [''C''] else [])"

definition kids_cycle :: "string \<Rightarrow> string list" where
  "kids_cycle k = (if k = ''X'' then [''X''] else [])"

definition sub0 :: subscription where
  "sub0 = \<lparr>s_version = 1, s_versions = [], plugins = []\<rparr>"

text \<open>A session that has seen the library at version 2 and holds the item \<open>Q\<close>.\<close>

definition seen2 :: session where
  "seen2 = (Session sub0)\<lparr>version := Some 2, versions := Some [(''X'', 2)],
                           items := [''Q'' \<mapsto> payload ''Q'']\<rparr>"

text \<open>
  A session that has seen the library at version 2, with \<open>P\<close> in the manifest at
  version 1, and that holds the payload of \<open>P\<close> at that version.
\<close>

definition holdsP :: session where
  "holdsP = (Session sub0)\<lparr>version := Some 2, versions := Some [(''X'', 2), (''P'', 1)],
                            items := [''P'' \<mapsto> payload ''P'']\<rparr>"

text \<open>
  The same, with \<open>P\<close> in the manifest at version 5: the payload of \<open>P\<close> that the
  session holds is out of date.
\<close>

definition staleP :: session where
  "staleP = (Session sub0)\<lparr>version := Some 2, versions := Some [(''X'', 2), (''P'', 5)],
                            items := [''P'' \<mapsto> payload ''P'']\<rparr>"


section \<open>Properties of the listener\<close>

lemma findIndex_takeWhile:
  "findIndex xs p = (if \<exists>x\<in>set xs. p x then int (length (takeWhile (\<lambda>x. \<not> p x) xs)) else -1)"
  by (induction xs) (auto simp: Let_def)

lemma remove_l_none:
  "\<forall>x\<in>set xs. \<not> by_fn k t x \<Longrightarrow> remove_l xs k t = (None, xs)"
  by (simp add: remove_l_def findIndex_takeWhile)

lemma remove_l_some:
  assumes "\<forall>y\<in>set ys. \<not> by_fn k t y" and "by_fn k t s"
  shows "remove_l (ys @ s # zs) k t = (Some s, ys @ zs)"
proof -
  have tw: "takeWhile (\<lambda>x. \<not> by_fn k t x) (ys @ s # zs) = ys"
    using assms by (simp add: takeWhile_tail)
  have "findIndex (ys @ s # zs) (by_fn k t) = int (length ys)"
    using assms(2) by (simp add: findIndex_takeWhile tw)
  then show ?thesis
    by (simp add: remove_l_def nth_append)
qed

lemma split_first:
  assumes "\<exists>x\<in>set xs. p x"
  obtains ys s zs where "xs = ys @ s # zs" "\<forall>y\<in>set ys. \<not> p y" "p s"
  using assms split_list_first_prop [of xs p] by blast

lemma resolve_none:
  "remove_l (pending l) k t = (None, rest) \<Longrightarrow> resolve k t l = l"
  by (subst resolve.simps) simp

lemma resolve_some:
  "remove_l (pending l) k t = (Some s, rest) \<Longrightarrow>
   resolve k t l =
     resolve k t (l\<lparr>pending := rest, current := current l @ [pick s],
                    emitted := emitted l @ settle s\<rparr>)"
  by (subst resolve.simps) (simp add: Let_def settle_def)

lemma resolve_all:
  "pending (resolve k t l) = filter (\<lambda>s. \<not> by_fn k t s) (pending l) \<and>
   current (resolve k t l) = current l @ map pick (filter (by_fn k t) (pending l)) \<and>
   emitted (resolve k t l) = emitted l @ concat (map settle (filter (by_fn k t) (pending l)))"
proof (induction k t l rule: resolve.induct)
  case (1 k topic l)
  show ?case
  proof (cases "\<exists>x\<in>set (pending l). by_fn k topic x")
    case False
    then have "remove_l (pending l) k topic = (None, pending l)"
      by (simp add: remove_l_none)
    from resolve_none [OF this] False show ?thesis
      by (simp add: filter_empty_conv)
  next
    case True
    then obtain ys s zs where
      sp: "pending l = ys @ s # zs" "\<forall>y\<in>set ys. \<not> by_fn k topic y" "by_fn k topic s"
      by (rule split_first)
    then have r: "remove_l (pending l) k topic = (Some s, ys @ zs)"
      by (simp add: remove_l_some)
    have f1: "filter (\<lambda>s. \<not> by_fn k topic s) ys = ys" and f2: "filter (by_fn k topic) ys = []"
      using sp(2) by (simp_all add: filter_empty_conv)
    from "1.IH" [OF r [symmetric] refl refl] sp f1 f2 show ?thesis
      unfolding resolve_some [OF r] by (simp add: settle_def)
  qed
qed

text \<open>
  Claim C3, as the code has it. A \<^verbatim>\<open>subscriptionsCreated\<close> confirmation of one pair
  \<open>(k, t)\<close> settles every pending registration that matches the pair, not one: all of
  them leave \<open>pending\<close> and join \<open>current\<close>, oldest first, each with its \<open>resolve\<close>
  callback called and an \<open>added\<close> event emitted; the registrations that do not match
  remain pending, in their order.
\<close>

theorem subscribed_settles_all_matching:
  "pending (subscribed (Some [\<lparr>apiKey = k, topics = [t]\<rparr>]) None l) =
     filter (\<lambda>s. \<not> by_fn k (Some t) s) (pending l) \<and>
   current (subscribed (Some [\<lparr>apiKey = k, topics = [t]\<rparr>]) None l) =
     current l @ map pick (filter (by_fn k (Some t)) (pending l)) \<and>
   emitted (subscribed (Some [\<lparr>apiKey = k, topics = [t]\<rparr>]) None l) =
     emitted l @ concat (map settle (filter (by_fn k (Some t)) (pending l)))"
  using resolve_all [of k "Some t" l] by (simp add: subscribed_def)

text \<open>
  Two calls of \<^verbatim>\<open>add\<close> for the same pair have registered \<open>a\<close> (caller 1) and then \<open>b\<close>
  (caller 2); one confirmation of the pair leaves nothing pending and makes both
  active, so the second does not remain pending.
\<close>

theorem subscribed_one_confirmation_counterexample:
  "pending (subscribed (Some [\<lparr>apiKey = Some ''K'', topics = [''/users/1'']\<rparr>]) None
      (register \<lparr>id' = ''b'', key = Some ''K'', path = ''/users/1''\<rparr> 2
        (register \<lparr>id' = ''a'', key = Some ''K'', path = ''/users/1''\<rparr> 1
          \<lparr>current = [], pending = [], emitted = []\<rparr>))) = [] \<and>
   current (subscribed (Some [\<lparr>apiKey = Some ''K'', topics = [''/users/1'']\<rparr>]) None
      (register \<lparr>id' = ''b'', key = Some ''K'', path = ''/users/1''\<rparr> 2
        (register \<lparr>id' = ''a'', key = Some ''K'', path = ''/users/1''\<rparr> 1
          \<lparr>current = [], pending = [], emitted = []\<rparr>))) =
     [\<lparr>id' = ''a'', key = Some ''K'', path = ''/users/1''\<rparr>,
      \<lparr>id' = ''b'', key = Some ''K'', path = ''/users/1''\<rparr>]"
  by (simp add: subscribed_def register_def resolve.simps remove_l_def by_fn_def pick_def Let_def)

lemma updated_loop_returns:
  "updated_loop p l = Some y \<Longrightarrow> find_first (current l) p = None"
proof (rule updated_loop.raw_induct [where P = "\<lambda>p l y. find_first (current l) p = None"])
  fix f :: "(registration \<Rightarrow> bool) \<Rightarrow> listener \<Rightarrow> listener option" and q l' r
  assume IH: "\<And>q l' r. f q l' = Some r \<Longrightarrow> find_first (current l') q = None"
    and st: "(case find_first (current l') q of
                None \<Rightarrow> Some l'
              | Some s \<Rightarrow> f q (l'\<lparr>emitted := emitted l' @ [Emit_updated s]\<rparr>)) = Some r"
  show "find_first (current l') q = None"
  proof (cases "find_first (current l') q")
    case None
    then show ?thesis .
  next
    case (Some s)
    with st have "f q (l'\<lparr>emitted := emitted l' @ [Emit_updated s]\<rparr>) = Some r" by simp
    from IH [OF this] show ?thesis by simp
  qed
qed

lemma find_first_some: "\<exists>x\<in>set xs. p x \<Longrightarrow> find_first xs p \<noteq> None"
  by (induction xs) auto

lemma updated_diverges:
  "\<exists>s\<in>set (current l). by_fn (n_apiKey data) (n_topic data) s \<Longrightarrow> Listener_updated data l = None"
  using updated_loop_returns [of "by_fn (n_apiKey data) (n_topic data)" l]
    find_first_some [of "current l" "by_fn (n_apiKey data) (n_topic data)"]
  by (cases "Listener_updated data l") (auto simp: Listener_updated_def)

text \<open>
  Claim C4 at a failing input: one active registration for \<open>(K, /users/1)\<close> and a
  \<^verbatim>\<open>topicUpdated\<close> notification for that pair. The handler never returns: \<^verbatim>\<open>find\<close>
  keeps returning the same registration, which nothing removes from \<open>current\<close>.
\<close>

theorem updated_never_returns:
  "Listener_updated \<lparr>n_apiKey = Some ''K'', n_topic = Some ''/users/1'', n_version = 7\<rparr>
     \<lparr>current = [\<lparr>id' = ''a'', key = Some ''K'', path = ''/users/1''\<rparr>],
      pending = [], emitted = []\<rparr> = None"
  by (rule updated_diverges) (simp add: by_fn_def)

text \<open>
  Claim C5, as the code has it. \<open>Listener_remove\<close> fails with \<open>not registered\<close> and
  leaves the listener as it is when no active registration has the id. Otherwise the
  first registration with the id is taken out of \<open>current\<close> before the remote channel
  is asked to unsubscribe, and stays out whatever the channel answers: the call
  succeeds with the registration when the channel reports no error and fails with the
  channel's error otherwise.
\<close>

theorem Listener_remove_removes_first:
  "((\<forall>d\<in>set (current l). Some (id' d) \<noteq> sid) \<longrightarrow>
      Listener_remove unsubscribe sid l = (Inl (Error ''not registered''), l)) \<and>
   (current l = ys @ d # zs \<and> (\<forall>y\<in>set ys. Some (id' y) \<noteq> sid) \<and> Some (id' d) = sid \<longrightarrow>
      Listener_remove unsubscribe sid l =
        ((case unsubscribe (key d) (path d) of Some err \<Rightarrow> Inl err | None \<Rightarrow> Inr d),
         l\<lparr>current := ys @ zs\<rparr>))"
proof (intro conjI impI)
  assume "\<forall>d\<in>set (current l). Some (id' d) \<noteq> sid"
  then have "remove_l (current l) sid None = (None, current l)"
    by (intro remove_l_none) (simp add: by_fn_def)
  then show "Listener_remove unsubscribe sid l = (Inl (Error ''not registered''), l)"
    by (simp add: Listener_remove_def)
next
  assume a: "current l = ys @ d # zs \<and> (\<forall>y\<in>set ys. Some (id' y) \<noteq> sid) \<and> Some (id' d) = sid"
  then have "remove_l (ys @ d # zs) sid None = (Some d, ys @ zs)"
    by (intro remove_l_some) (simp_all add: by_fn_def)
  with a show "Listener_remove unsubscribe sid l =
        ((case unsubscribe (key d) (path d) of Some err \<Rightarrow> Inl err | None \<Rightarrow> Inr d),
         l\<lparr>current := ys @ zs\<rparr>)"
    by (simp add: Listener_remove_def Let_def split: option.splits)
qed

text \<open>
  The active set holds \<open>a\<close> and \<open>b\<close>: removing the unknown id \<open>z\<close> fails and changes
  nothing; removing \<open>a\<close> with a channel that reports no error succeeds and leaves \<open>b\<close>.
\<close>

theorem Listener_remove_removes_first_witness:
  "Listener_remove (\<lambda>k t. None) (Some ''z'')
     \<lparr>current = [\<lparr>id' = ''a'', key = Some ''K'', path = ''/users/1''\<rparr>,
                 \<lparr>id' = ''b'', key = None, path = ''/groups/2''\<rparr>],
      pending = [], emitted = []\<rparr> =
     (Inl (Error ''not registered''),
      \<lparr>current = [\<lparr>id' = ''a'', key = Some ''K'', path = ''/users/1''\<rparr>,
                  \<lparr>id' = ''b'', key = None, path = ''/groups/2''\<rparr>],
       pending = [], emitted = []\<rparr>) \<and>
   Listener_remove (\<lambda>k t. None) (Some ''a'')
     \<lparr>current = [\<lparr>id' = ''a'', key = Some ''K'', path = ''/users/1''\<rparr>,
                 \<lparr>id' = ''b'', key = None, path = ''/groups/2''\<rparr>],
      pending = [], emitted = []\<rparr> =
     (Inr \<lparr>id' = ''a'', key = Some ''K'', path = ''/users/1''\<rparr>,
      \<lparr>current = [\<lparr>id' = ''b'', key = None, path = ''/groups/2''\<rparr>],
       pending = [], emitted = []\<rparr>)"
proof -
  let ?a = "\<lparr>id' = ''a'', key = Some ''K'', path = ''/users/1''\<rparr>"
  let ?b = "\<lparr>id' = ''b'', key = None, path = ''/groups/2''\<rparr>"
  let ?l = "\<lparr>current = [?a, ?b], pending = [], emitted = []\<rparr>"
  have 1: "Listener_remove (\<lambda>k t. None) (Some ''z'') ?l = (Inl (Error ''not registered''), ?l)"
    using Listener_remove_removes_first [of ?l "Some ''z''" "\<lambda>k t. None" "[]" ?a "[]"]
    by simp
  have 2: "Listener_remove (\<lambda>k t. None) (Some ''a'') ?l =
             (Inr ?a, \<lparr>current = [?b], pending = [], emitted = []\<rparr>)"
    using Listener_remove_removes_first [of ?l "Some ''a''" "\<lambda>k t. None" "[]" ?a "[?b]"]
    by simp
  from 1 2 show ?thesis by (rule conjI)
qed

text \<open>
  The claim fails where the channel rejects the unsubscribe request: the call fails
  with the channel's error, and the registration \<open>a\<close> is no longer active.
\<close>

theorem Listener_remove_failed_unsubscribe_counterexample:
  "Listener_remove (\<lambda>k t. Some (Error ''unsubscribe failed'')) (Some ''a'')
     \<lparr>current = [\<lparr>id' = ''a'', key = Some ''K'', path = ''/users/1''\<rparr>],
      pending = [], emitted = []\<rparr> =
     (Inl (Error ''unsubscribe failed''), \<lparr>current = [], pending = [], emitted = []\<rparr>)"
  by (simp add: Listener_remove_def remove_l_def by_fn_def)


section \<open>Properties of the session\<close>

subsection \<open>diff\<close>

lemma diff_current_filter:
  "map_of earlier ''hasOwnProperty'' = None \<Longrightarrow>
   diff_current vs earlier ks (c, u) =
     (None, c @ filter (\<lambda>k. map_of earlier k = None) ks,
      u @ filter (\<lambda>k. case map_of earlier k of
                         Some e \<Rightarrow> (case map_of vs k of Some v \<Rightarrow> v > e | None \<Rightarrow> False)
                       | None \<Rightarrow> False) ks)"
  by (induction ks arbitrary: c u) (auto simp: hasOwnProperty_def split: option.splits)


lemma diff_earlier_filter:
  "map_of vs ''hasOwnProperty'' = None \<Longrightarrow>
   diff_earlier vs ks d = (None, d @ filter (\<lambda>k. map_of vs k = None) ks)"
  by (induction ks arbitrary: d) (auto simp: hasOwnProperty_def)



text \<open>
  What \<open>diff\<close> computes when neither membership test throws: the three arrays are the
  three filters.
\<close>

lemma diff_filters:
  assumes "\<not> (current_vs \<noteq> [] \<and> map_of earlier ''hasOwnProperty'' \<noteq> None)"
    and "\<not> (earlier \<noteq> [] \<and> map_of current_vs ''hasOwnProperty'' \<noteq> None)"
  shows "diff (Some current_vs) (Some earlier) s =
     (None, s\<lparr>created := filter (\<lambda>k. map_of earlier k = None) (map fst current_vs),
              updated := filter (\<lambda>k. case map_of earlier k of
                         Some e \<Rightarrow> (case map_of current_vs k of Some v \<Rightarrow> v > e | None \<Rightarrow> False)
                       | None \<Rightarrow> False) (map fst current_vs),
              deleted := filter (\<lambda>k. map_of current_vs k = None) (map fst earlier)\<rparr>)"
proof -
  have 1: "diff_current current_vs earlier (map fst current_vs) ([], []) =
     (None, filter (\<lambda>k. map_of earlier k = None) (map fst current_vs),
      filter (\<lambda>k. case map_of earlier k of
                         Some e \<Rightarrow> (case map_of current_vs k of Some v \<Rightarrow> v > e | None \<Rightarrow> False)
                       | None \<Rightarrow> False) (map fst current_vs))"
  proof (cases "current_vs = []")
    case True
    then show ?thesis by simp
  next
    case False
    with assms(1) have "map_of earlier ''hasOwnProperty'' = None" by simp
    from diff_current_filter [OF this] show ?thesis by simp
  qed
  have 2: "diff_earlier current_vs (map fst earlier) [] =
     (None, filter (\<lambda>k. map_of current_vs k = None) (map fst earlier))"
  proof (cases "earlier = []")
    case True
    then show ?thesis by simp
  next
    case False
    with assms(2) have "map_of current_vs ''hasOwnProperty'' = None" by simp
    from diff_earlier_filter [OF this] show ?thesis by simp
  qed
  show ?thesis
    by (simp add: diff_def 1 2)
qed





subsection \<open>What update leaves untouched\<close>

lemma diff_fields:
  "diff va ea s = (err, s') \<Longrightarrow>
     version s' = version s \<and> versions s' = versions s \<and> items s' = items s \<and>
     subscription s' = subscription s"
  by (auto simp: diff_def Let_def split: option.splits prod.splits)

lemma update_pages_fields:
  "update_pages m s = (err, s') \<Longrightarrow>
     version s' = version s \<and> items s' = items s \<and> subscription s' = subscription s"
proof (induction m s rule: update_pages.induct)
  case (1 um ty ver dat mu dn nxt s)
  from "1.prems" show ?case
    by (subst (asm) update_pages.simps)
       (auto split: if_splits sum.splits dest!: "1.IH" [rotated -1])
qed

lemma update_fields:
  "update env s w = (err, s', w') \<Longrightarrow>
     items s' = items s \<and> subscription s' = subscription s"
  by (auto simp: update_def Let_def split: prod.splits sum.splits if_splits option.splits
           dest!: update_pages_fields diff_fields)


subsection \<open>modified\<close>

text \<open>
  Claim C8. \<open>modified\<close> holds exactly when the session's version is defined and strictly
  greater than the version stored in the subscription. It is false for a new session;
  when the server answers \<open>unmodified\<close>, \<open>update\<close> returns with the version undefined,
  so it is false; and after an \<open>update\<close> that read a one-page manifest of version
  \<open>v\<close> it holds exactly when \<open>v\<close> is strictly greater than the stored version. That
  \<open>update\<close> returns without an error, unless \<open>diff\<close> throws at a key named
  \<open>hasOwnProperty\<close>; the version is set before \<open>diff\<close> runs.
\<close>

theorem modified_iff:
  "(modified s \<longleftrightarrow> (\<exists>v. version s = Some v \<and> v > s_version (subscription s))) \<and>
   \<not> modified (Session sub) \<and>
   (get_versions env w = (Inr message, w1) \<and> unmodified message \<longrightarrow>
      (\<exists>s'. update env s w = (None, s', w1) \<and> version s' = None \<and> \<not> modified s')) \<and>
   (get_versions env w = (Inr message, w1) \<and> \<not> unmodified message \<and>
    vm_type message = ''json'' \<and> \<not> multi message \<longrightarrow>
      (\<exists>err s'. update env s w = (err, s', w1) \<and> version s' = Some (vm_version message) \<and>
            (modified s' \<longleftrightarrow> vm_version message > s_version (subscription s)) \<and>
            (\<not> (vm_data message \<noteq> [] \<and>
                map_of (s_versions (subscription s)) ''hasOwnProperty'' \<noteq> None) \<and>
             \<not> (s_versions (subscription s) \<noteq> [] \<and>
                map_of (vm_data message) ''hasOwnProperty'' \<noteq> None) \<longrightarrow> err = None)))"
proof (intro conjI impI)
  show "modified s \<longleftrightarrow> (\<exists>v. version s = Some v \<and> v > s_version (subscription s))"
    by (simp add: modified_def split: option.splits)
  show "\<not> modified (Session sub)"
    by (simp add: modified_def Session_def)
next
  assume "get_versions env w = (Inr message, w1) \<and> unmodified message"
  then show "\<exists>s'. update env s w = (None, s', w1) \<and> version s' = None \<and> \<not> modified s'"
    by (simp add: update_def modified_def)
next
  assume a: "get_versions env w = (Inr message, w1) \<and> \<not> unmodified message \<and>
    vm_type message = ''json'' \<and> \<not> multi message"
  let ?s2 = "s\<lparr>version := Some (vm_version message), versions := Some (vm_data message)\<rparr>"
  obtain err s4 where d: "diff None None ?s2 = (err, s4)"
    by (cases "diff None None ?s2") auto
  from diff_fields [OF d] have f: "version s4 = Some (vm_version message)"
    "subscription s4 = subscription s" by simp_all
  from a d have u: "update env s w = (err, s4, w1)"
    by (simp add: update_def)
  have n: "err = None"
    if "\<not> (vm_data message \<noteq> [] \<and>
                map_of (s_versions (subscription s)) ''hasOwnProperty'' \<noteq> None) \<and>
             \<not> (s_versions (subscription s) \<noteq> [] \<and>
                map_of (vm_data message) ''hasOwnProperty'' \<noteq> None)"
  proof -
    from that have n1: "\<not> (vm_data message \<noteq> [] \<and>
                map_of (s_versions (subscription s)) ''hasOwnProperty'' \<noteq> None)"
      and n2: "\<not> (s_versions (subscription s) \<noteq> [] \<and>
                map_of (vm_data message) ''hasOwnProperty'' \<noteq> None)" by blast+
    have "diff None None ?s2 = diff (Some (vm_data message)) (Some (s_versions (subscription s))) ?s2"
      by (simp add: diff_def)
    with diff_filters [OF n1 n2, of ?s2] d show ?thesis by simp
  qed
  show "\<exists>err s'. update env s w = (err, s', w1) \<and> version s' = Some (vm_version message) \<and>
            (modified s' \<longleftrightarrow> vm_version message > s_version (subscription s)) \<and>
            (\<not> (vm_data message \<noteq> [] \<and>
                map_of (s_versions (subscription s)) ''hasOwnProperty'' \<noteq> None) \<and>
             \<not> (s_versions (subscription s) \<noteq> [] \<and>
                map_of (vm_data message) ''hasOwnProperty'' \<noteq> None) \<longrightarrow> err = None)"
  proof (intro exI [of _ err] exI [of _ s4] conjI impI)
    show "update env s w = (err, s4, w1)" by (rule u)
    show "version s4 = Some (vm_version message)" by (rule f)
    show "modified s4 \<longleftrightarrow> vm_version message > s_version (subscription s)"
      using f by (simp add: modified_def)
    show "err = None"
      if "\<not> (vm_data message \<noteq> [] \<and>
                map_of (s_versions (subscription s)) ''hasOwnProperty'' \<noteq> None) \<and>
             \<not> (s_versions (subscription s) \<noteq> [] \<and>
                map_of (vm_data message) ''hasOwnProperty'' \<noteq> None)"
      using that by (rule n)
  qed
qed

text \<open>
  A new session is not modified; after an \<open>update\<close> against the library at version 2,
  with version 1 stored in the subscription, the session is; after an \<open>update\<close> that
  the server answers with \<open>unmodified\<close>, it is not.
\<close>

theorem modified_iff_witness:
  "\<not> modified (Session sub0) \<and>
   (\<exists>s'. update (library 100 kids_tree) (Session sub0) 0 = (None, s', 1) \<and>
         version s' = Some 2 \<and> modified s') \<and>
   (\<exists>s'. update ((library 100 kids_tree)
                   \<lparr>get_versions := (\<lambda>w. (Inr (VMessage True [] 0 [] False True
                                                 (Inl (Error ''no more pages''))), w + 1))\<rparr>)
             (Session sub0) 0 = (None, s', 1) \<and>
         version s' = None \<and> \<not> modified s')"
proof -
  let ?m = "VMessage False ''json'' 2 [(''X'', 2)] False True (Inl (Error ''no more pages''))"
  let ?u = "VMessage True [] 0 [] False True (Inl (Error ''no more pages''))"
  let ?env = "(library 100 kids_tree)\<lparr>get_versions := (\<lambda>w. (Inr ?u, w + 1))\<rparr>"
  have 1: "\<not> modified (Session sub0)"
    using modified_iff [of "Session sub0" sub0 "library 100 kids_tree" 0 ?m 1] by blast
  have g: "get_versions (library 100 kids_tree) 0 = (Inr ?m, 1)"
    by (simp add: library_def)
  from modified_iff [of "Session sub0" sub0 "library 100 kids_tree" 0 ?m 1] g
  have 2: "\<exists>s'. update (library 100 kids_tree) (Session sub0) 0 = (None, s', 1) \<and>
         version s' = Some 2 \<and> modified s'"
    by (simp add: Session_def sub0_def)
  have g': "get_versions ?env 0 = (Inr ?u, 1)"
    by simp
  from modified_iff [of "Session sub0" sub0 ?env 0 ?u 1] g'
  have 3: "\<exists>s'. update ?env (Session sub0) 0 = (None, s', 1) \<and> version s' = None \<and> \<not> modified s'"
    by simp
  from 1 2 3 show ?thesis by blast
qed


subsection \<open>The key list only grows, by new parents\<close>

lemma grows_refl: "grows ps ks ks"
  by (simp add: grows_def)

lemma grows_trans:
  assumes "grows ps ks ks1" and "grows qs ks1 ks2"
  shows "grows (ps \<union> qs) ks ks2"
proof -
  from assms(1) obtain e1 where e1: "ks1 = ks @ e1" "distinct e1" "set e1 \<inter> set ks = {}" "set e1 \<subseteq> ps"
    by (auto simp: grows_def)
  from assms(2) obtain e2 where e2: "ks2 = ks1 @ e2" "distinct e2" "set e2 \<inter> set ks1 = {}" "set e2 \<subseteq> qs"
    by (auto simp: grows_def)
  have "ks2 = ks @ (e1 @ e2)" using e1(1) e2(1) by simp
  moreover have "distinct (e1 @ e2)" using e1 e2 by auto
  moreover have "set (e1 @ e2) \<inter> set ks = {}" using e1 e2 by auto
  moreover have "set (e1 @ e2) \<subseteq> ps \<union> qs" using e1 e2 by auto
  ultimately show ?thesis unfolding grows_def by blast
qed

lemma grows_mono: "grows ps ks ks' \<Longrightarrow> ps \<subseteq> qs \<Longrightarrow> grows qs ks ks'"
  by (auto simp: grows_def)

lemma keys_grow_refl: "keys_grow ps keys keys"
  by (simp add: keys_grow_def grows_refl split: option.splits)

lemma keys_grow_trans:
  "keys_grow ps keys keys1 \<Longrightarrow> keys_grow qs keys1 keys2 \<Longrightarrow> keys_grow (ps \<union> qs) keys keys2"
  by (auto simp: keys_grow_def split: option.splits dest: grows_trans)

lemma keys_grow_mono: "keys_grow ps keys keys' \<Longrightarrow> ps \<subseteq> qs \<Longrightarrow> keys_grow qs keys keys'"
  by (auto simp: keys_grow_def split: option.splits dest: grows_mono)

lemma push_parent_grows: "keys_grow (set_option (getParent it)) keys (push_parent it keys)"
  by (auto simp: keys_grow_def push_parent_def grows_def split: option.splits)

lemma parents_Nil: "parents [] = {}"
  by (simp add: parents_def)

lemma parents_Cons: "parents (it # rest) = set_option (getParent it) \<union> parents rest"
  by (auto simp: parents_def)

lemma push_parent_mem:
  "getParent it = Some p \<Longrightarrow> push_parent it (Some ks) = Some ks' \<Longrightarrow> p \<in> set ks'"
  by (auto simp: push_parent_def split: if_splits)

subsection \<open>What receive leaves behind\<close>

lemma receive_post_Nil: "receive_post [] keys s None s keys"
  by (simp add: receive_post_def keys_grow_refl parents_Nil)

lemma receive_post_stop:
  assumes s1: "s1 = s\<lparr>items := (items s)(item_key it \<mapsto> it)\<rparr>"
    and mid: "dom (items s1) \<subseteq> dom (items s2)" "version s2 = version s1" "versions s2 = versions s1"
    "subscription s2 = subscription s1"
    "created s2 = created s1" "updated s2 = updated s1" "deleted s2 = deleted s1"
  shows "receive_post (it # rest) keys s (Some e) s2 (push_parent it keys)"
proof -
  have "dom (items s) \<subseteq> dom (items s2)"
    using s1 mid(1) by auto
  moreover have "keys_grow (parents (it # rest)) keys (push_parent it keys)"
    by (rule keys_grow_mono [OF push_parent_grows]) (simp add: parents_Cons)
  ultimately show ?thesis
    using mid(2-) by (simp add: receive_post_def s1)
qed

lemma receive_post_continue:
  assumes s1: "s1 = s\<lparr>items := (items s)(item_key it \<mapsto> it)\<rparr>"
    and mid: "dom (items s1) \<subseteq> dom (items s2)" "version s2 = version s1" "versions s2 = versions s1"
    "subscription s2 = subscription s1"
    "created s2 = created s1" "updated s2 = updated s1" "deleted s2 = deleted s1"
    and rest: "receive_post rest (push_parent it keys) s2 err s' keys'"
  shows "receive_post (it # rest) keys s err s' keys'"
proof -
  have kg: "keys_grow (parents (it # rest)) keys keys'"
    using keys_grow_trans [OF push_parent_grows [of it keys]] rest
    by (simp add: receive_post_def parents_Cons)
  have par: "\<forall>ks'. err = None \<and> keys' = Some ks' \<longrightarrow> set_option (getParent it) \<subseteq> set ks'"
  proof (intro allI impI)
    fix ks' assume a: "err = None \<and> keys' = Some ks'"
    with rest have "keys_grow (parents rest) (push_parent it keys) (Some ks')"
      by (simp add: receive_post_def)
    then obtain ks1 where k1: "push_parent it keys = Some ks1" "set ks1 \<subseteq> set ks'"
      by (auto simp: keys_grow_def grows_def split: option.splits)
    then obtain ks where "keys = Some ks"
      by (auto simp: push_parent_def split: option.splits)
    with k1 show "set_option (getParent it) \<subseteq> set ks'"
      by (auto dest: push_parent_mem)
  qed
  have it: "item_key it \<in> dom (items s2)"
    using s1 mid(1) by auto
  have d: "dom (items s) \<subseteq> dom (items s')"
    using s1 mid(1) rest by (auto simp: receive_post_def)
  have its: "err = None \<longrightarrow> item_key ` set (it # rest) \<subseteq> dom (items s')"
    using it rest by (auto simp: receive_post_def)
  have pr: "err = None \<longrightarrow> (\<forall>ks'. keys' = Some ks' \<longrightarrow> parents (it # rest) \<subseteq> set ks')"
    using par rest unfolding parents_Cons [of it rest] by (simp add: receive_post_def)
  have f: "version s' = version s" "versions s' = versions s" "subscription s' = subscription s"
    "created s' = created s" "updated s' = updated s" "deleted s' = deleted s"
    using rest mid(2-) by (simp_all add: receive_post_def s1)
  show ?thesis
    unfolding receive_post_def using d its pr f kg by blast
qed

lemma receive_loop_post:
  "receive_loop env its keys s w = Some r \<Longrightarrow>
   (case r of (err, s', keys', w') \<Rightarrow> receive_post its keys s err s' keys')"
proof (rule receive_loop.raw_induct
    [where P = "\<lambda>env its keys s w r. case r of (err, s', keys', w') \<Rightarrow> receive_post its keys s err s' keys'"])
  fix f :: "'a env \<Rightarrow> item list \<Rightarrow> string list option \<Rightarrow> session \<Rightarrow> 'a
     \<Rightarrow> (error option \<times> session \<times> string list option \<times> 'a) option"
    and env its keys s w r
  assume IH: "\<And>env its keys s w r. f env its keys s w = Some r \<Longrightarrow>
      (case r of (err, s', keys', w') \<Rightarrow> receive_post its keys s err s' keys')"
  assume st: "(case its of
        [] \<Rightarrow> Some (None, s, keys, w)
      | it # rest \<Rightarrow>
          (let s1 = s\<lparr>items := (items s)(item_key it \<mapsto> it)\<rparr>;
               keys1 = push_parent it keys
           in if hasChildren it then
                (case children env (item_key it) w of
                   (Inl e, w1) \<Rightarrow> Some (Some e, s1, keys1, w1)
                 | (Inr message, w1) \<Rightarrow>
                     (case receive_head s1 message of
                        Inl e \<Rightarrow> Some (Some e, s1, keys1, w1)
                      | Inr its' \<Rightarrow>
                          Option.bind (f env its' None s1 w1)
                            (\<lambda>r. case r of
                                   (Some e, s2, _, w2) \<Rightarrow> Some (Some e, s2, keys1, w2)
                                 | (None, s2, _, w2) \<Rightarrow> f env rest keys1 s2 w2)))
              else f env rest keys1 s1 w)) = Some r"
  show "case r of (err, s', keys', w') \<Rightarrow> receive_post its keys s err s' keys'"
  proof (cases its)
    case Nil
    with st show ?thesis by (auto simp: receive_post_Nil)
  next
    case (Cons it rest)
    define s1 where s1: "s1 = s\<lparr>items := (items s)(item_key it \<mapsto> it)\<rparr>"
    have same: "dom (items s1) \<subseteq> dom (items s1)" "version s1 = version s1"
      "versions s1 = versions s1" "subscription s1 = subscription s1"
      "created s1 = created s1" "updated s1 = updated s1" "deleted s1 = deleted s1"
      by simp_all
    have stop: "r = (Some e, s2, push_parent it keys, w2) \<Longrightarrow>
        dom (items s1) \<subseteq> dom (items s2) \<Longrightarrow> version s2 = version s1 \<Longrightarrow>
        versions s2 = versions s1 \<Longrightarrow> subscription s2 = subscription s1 \<Longrightarrow>
        created s2 = created s1 \<Longrightarrow> updated s2 = updated s1 \<Longrightarrow> deleted s2 = deleted s1 \<Longrightarrow>
        ?thesis" for e s2 w2
      unfolding Cons using receive_post_stop [OF s1, of s2 rest keys e] by simp
    have continue: "f env rest (push_parent it keys) s2 w2 = Some r \<Longrightarrow>
        dom (items s1) \<subseteq> dom (items s2) \<Longrightarrow> version s2 = version s1 \<Longrightarrow>
        versions s2 = versions s1 \<Longrightarrow> subscription s2 = subscription s1 \<Longrightarrow>
        created s2 = created s1 \<Longrightarrow> updated s2 = updated s1 \<Longrightarrow> deleted s2 = deleted s1 \<Longrightarrow>
        ?thesis" for s2 w2
    proof -
      assume c: "f env rest (push_parent it keys) s2 w2 = Some r"
        and m: "dom (items s1) \<subseteq> dom (items s2)" "version s2 = version s1"
        "versions s2 = versions s1" "subscription s2 = subscription s1"
        "created s2 = created s1" "updated s2 = updated s1" "deleted s2 = deleted s1"
      obtain err s' keys' w' where r: "r = (err, s', keys', w')" by (cases r) auto
      from IH [OF c] have "receive_post rest (push_parent it keys) s2 err s' keys'"
        by (simp add: r)
      from receive_post_continue [OF s1 m this] show ?thesis
        unfolding Cons r by simp
    qed
    show ?thesis
    proof (cases "hasChildren it")
      case False
      with st Cons have "f env rest (push_parent it keys) s1 w = Some r"
        by (simp add: s1 Let_def)
      from continue [OF this same] show ?thesis .
    next
      case True
      obtain res w1 where ch: "children env (item_key it) w = (res, w1)" by force
      show ?thesis
      proof (cases res)
        case (Inl e)
        with st Cons True ch have "r = (Some e, s1, push_parent it keys, w1)"
          by (simp add: s1 Let_def)
        from stop [OF this same] show ?thesis .
      next
        case (Inr message)
        show ?thesis
        proof (cases "receive_head s1 message")
          case (Inl e)
          with st Cons True ch Inr have "r = (Some e, s1, push_parent it keys, w1)"
            by (simp add: s1 Let_def)
          from stop [OF this same] show ?thesis .
        next
          case (Inr its')
          with st Cons True ch \<open>res = Inr message\<close>
          have b: "Option.bind (f env its' None s1 w1)
                            (\<lambda>r. case r of
                                   (Some e, s2, _, w2) \<Rightarrow> Some (Some e, s2, push_parent it keys, w2)
                                 | (None, s2, _, w2) \<Rightarrow> f env rest (push_parent it keys) s2 w2) = Some r"
            by (simp add: s1 Let_def)
          then obtain e1 s2 k2 w2 where n: "f env its' None s1 w1 = Some (e1, s2, k2, w2)"
            by (cases "f env its' None s1 w1") auto
          from IH [OF n] have p2: "receive_post its' None s1 e1 s2 k2" by simp
          then have mid: "dom (items s1) \<subseteq> dom (items s2)" "version s2 = version s1"
            "versions s2 = versions s1" "subscription s2 = subscription s1"
            "created s2 = created s1" "updated s2 = updated s1" "deleted s2 = deleted s1"
            by (simp_all add: receive_post_def)
          show ?thesis
          proof (cases e1)
            case (Some e)
            with b n have "r = (Some e, s2, push_parent it keys, w2)" by simp
            from stop [OF this mid] show ?thesis .
          next
            case None
            with b n have "f env rest (push_parent it keys) s2 w2 = Some r" by simp
            from continue [OF this mid] show ?thesis .
          qed
        qed
      qed
    qed
  qed
qed


subsection \<open>The batch selection\<close>

lemma select_postI_step:
  assumes "i < length keys" and "select_post s keys (Suc i) b1 i' batch'"
    and "b1 = batch @ [keys ! i] \<or> (b1 = batch \<and> keys ! i \<in> dom (items s))"
  shows "select_post s keys i batch i' batch'"
proof -
  from assms(2) obtain new where n: "batch' = b1 @ new"
    "\<forall>j. Suc i \<le> j \<and> j < i' \<longrightarrow> keys ! j \<in> set new \<or> keys ! j \<in> dom (items s)"
    and o: "Suc i \<le> i'" "i' \<le> length keys"
    "length b1 < MAX_BATCH_SIZE \<and> length batch' < MAX_BATCH_SIZE \<longrightarrow> i' = length keys"
    by (auto simp: select_post_def)
  from assms(3) show ?thesis
  proof
    assume b: "b1 = batch @ [keys ! i]"
    have "\<forall>j. i \<le> j \<and> j < i' \<longrightarrow> keys ! j \<in> set ((keys ! i) # new) \<or> keys ! j \<in> dom (items s)"
    proof (intro allI impI)
      fix j assume "i \<le> j \<and> j < i'"
      then consider "j = i" | "Suc i \<le> j \<and> j < i'" by linarith
      then show "keys ! j \<in> set ((keys ! i) # new) \<or> keys ! j \<in> dom (items s)"
        using n(2) by cases auto
    qed
    moreover have "batch' = batch @ ((keys ! i) # new)" using n(1) b by simp
    ultimately show ?thesis
      unfolding select_post_def using o b n(1) by (intro conjI exI [of _ "(keys ! i) # new"]) auto
  next
    assume b: "b1 = batch \<and> keys ! i \<in> dom (items s)"
    have "\<forall>j. i \<le> j \<and> j < i' \<longrightarrow> keys ! j \<in> set new \<or> keys ! j \<in> dom (items s)"
    proof (intro allI impI)
      fix j assume "i \<le> j \<and> j < i'"
      then consider "j = i" | "Suc i \<le> j \<and> j < i'" by linarith
      then show "keys ! j \<in> set new \<or> keys ! j \<in> dom (items s)"
        using n(2) b by cases auto
    qed
    then show ?thesis
      unfolding select_post_def using o b n(1) by (intro conjI exI [of _ new]) auto
  qed
qed

lemma select_postI_full:
  assumes "i < length keys" and "length (batch @ [keys ! i]) \<ge> MAX_BATCH_SIZE"
  shows "select_post s keys i batch (Suc i) (batch @ [keys ! i])"
proof -
  have "\<forall>j. i \<le> j \<and> j < Suc i \<longrightarrow> keys ! j \<in> set [keys ! i] \<or> keys ! j \<in> dom (items s)"
  proof (intro allI impI)
    fix j assume "i \<le> j \<and> j < Suc i"
    then have "j = i" by linarith
    then show "keys ! j \<in> set [keys ! i] \<or> keys ! j \<in> dom (items s)" by simp
  qed
  then show ?thesis
    unfolding select_post_def using assms
    by (intro conjI exI [of _ "[keys ! i]"]) auto
qed

lemma select_batch_post:
  "select_batch s keys i batch = Inr (i', batch') \<Longrightarrow> i \<le> length keys \<Longrightarrow>
   select_post s keys i batch i' batch'"
proof (induction s keys i batch rule: select_batch.induct)
  case (1 s keys i batch)
  show ?case
  proof (cases "i < length keys")
    case False
    with "1.prems" show ?thesis
      by (subst (asm) select_batch.simps) (auto simp: select_post_def)
  next
    case True
    let ?k = "keys ! i"
    let ?b = "batch @ [?k]"
    have push: "(if length ?b \<ge> MAX_BATCH_SIZE then Inr (i + 1, ?b)
                 else select_batch s keys (i + 1) ?b) = Inr (i', batch') \<Longrightarrow> ?thesis"
    proof (cases "length ?b \<ge> MAX_BATCH_SIZE")
      case True
      assume "(if length ?b \<ge> MAX_BATCH_SIZE then Inr (i + 1, ?b)
                 else select_batch s keys (i + 1) ?b) = Inr (i', batch')"
      with True have "i' = Suc i" "batch' = ?b" by simp_all
      with select_postI_full [OF \<open>i < length keys\<close> True] show ?thesis by simp
    next
      case False
      assume "(if length ?b \<ge> MAX_BATCH_SIZE then Inr (i + 1, ?b)
                 else select_batch s keys (i + 1) ?b) = Inr (i', batch')"
      with False have r: "select_batch s keys (i + 1) ?b = Inr (i', batch')" by simp
      from "1.IH"(1) [OF True refl refl False r] True
      have "select_post s keys (Suc i) ?b i' batch'" by simp
      from select_postI_step [OF True this] show ?thesis by simp
    qed
    show ?thesis
    proof (cases "items s ?k")
      case None
      with "1.prems"(1) True show ?thesis
        by (subst (asm) select_batch.simps) (simp add: Let_def push)
    next
      case (Some it)
      show ?thesis
      proof (cases "versions s")
        case None
        with "1.prems"(1) True Some show ?thesis
          by (subst (asm) select_batch.simps) (simp add: Let_def)
      next
        case vs: (Some vs)
        show ?thesis
        proof (cases "Some (item_version it) \<noteq> map_of vs ?k")
          case True
          with "1.prems"(1) \<open>i < length keys\<close> Some vs show ?thesis
            by (subst (asm) select_batch.simps) (simp add: Let_def push)
        next
          case False
          with "1.prems"(1) \<open>i < length keys\<close> Some vs
          have r: "select_batch s keys (i + 1) batch = Inr (i', batch')"
            by (subst (asm) select_batch.simps) (simp add: Let_def)
          from "1.IH"(2) [OF \<open>i < length keys\<close> refl refl Some vs _ r] False \<open>i < length keys\<close>
          have sp: "select_post s keys (Suc i) batch i' batch'" by simp
          from select_postI_step [OF \<open>i < length keys\<close> sp] Some show ?thesis by auto
        qed
      qed
    qed
  qed
qed


subsection \<open>What download leaves behind\<close>

lemma receive_post:
  assumes "receive env message keys s w = Some (err, s', keys', w')"
  shows "receive_post (im_data message) keys s err s' keys'"
proof (cases "receive_head s message")
  case (Inl e)
  with assms show ?thesis
    by (auto simp: receive_def receive_post_def keys_grow_refl)
next
  case (Inr its)
  then have "its = im_data message"
    by (auto simp: receive_head_def split: sum.splits if_splits)
  with assms Inr receive_loop_post [of env its keys s w "(err, s', keys', w')"] show ?thesis
    by (simp add: receive_def)
qed

lemma grows_nth: "grows ps ks ks' \<Longrightarrow> j < length ks \<Longrightarrow> ks' ! j = ks ! j"
  by (auto simp: grows_def nth_append)

lemma grows_length: "grows ps ks ks' \<Longrightarrow> length ks \<le> length ks'"
  by (auto simp: grows_def)

lemma download_post_exit:
  "length keys \<le> i \<Longrightarrow> download_post keys i s requested err s keys requested"
  by (auto simp: download_post_def grows_refl)

lemma download_post_abort:
  assumes "dom (items s) \<subseteq> dom (items s')" "version s' = version s" "versions s' = versions s"
    "subscription s' = subscription s"
    "created s' = created s" "updated s' = updated s" "deleted s' = deleted s"
    "grows ps keys keys'"
  shows "download_post keys i s requested (Some e) s' keys' (requested @ bs)"
  using assms by (auto simp: download_post_def intro: grows_mono)

lemma download_post_step:
  assumes sel: "select_post s keys i [] i' batch"
    and mid: "dom (items s) \<subseteq> dom (items s2)" "version s2 = version s" "versions s2 = versions s"
      "subscription s2 = subscription s"
      "created s2 = created s" "updated s2 = updated s" "deleted s2 = deleted s"
    and g: "grows ps keys ks2"
    and bs: "bs = [batch] \<or> (bs = [] \<and> batch = [])"
    and rest: "download_post ks2 i' s2 (requested @ bs) err s' keys' requested'"
  shows "download_post keys i s requested err s' keys' requested'"
proof -
  from rest obtain new where new: "requested' = (requested @ bs) @ new"
    "err = None \<longrightarrow> (\<forall>j. i' \<le> j \<and> j < length keys' \<longrightarrow>
              keys' ! j \<in> \<Union> (set ` set new) \<or> keys' ! j \<in> dom (items s'))"
    and g2: "grows UNIV ks2 keys'" and d2: "dom (items s2) \<subseteq> dom (items s')"
    by (auto simp: download_post_def)
  from grows_trans [OF g g2] have g3: "grows UNIV keys keys'" by simp
  from sel have i': "i' \<le> length keys"
    and cached: "\<forall>j. i \<le> j \<and> j < i' \<longrightarrow> keys ! j \<in> set batch \<or> keys ! j \<in> dom (items s)"
    by (auto simp: select_post_def)
  have sb: "set batch \<subseteq> \<Union> (set ` set (bs @ new))"
    using bs by auto
  have cover: "err = None \<longrightarrow> (\<forall>j. i \<le> j \<and> j < length keys' \<longrightarrow>
              keys' ! j \<in> \<Union> (set ` set (bs @ new)) \<or> keys' ! j \<in> dom (items s'))"
  proof (intro impI allI)
    fix j assume e: "err = None" and j: "i \<le> j \<and> j < length keys'"
    show "keys' ! j \<in> \<Union> (set ` set (bs @ new)) \<or> keys' ! j \<in> dom (items s')"
    proof (cases "j < i'")
      case True
      with i' have "keys' ! j = keys ! j" by (intro grows_nth [OF g3]) simp
      moreover from cached j True have "keys ! j \<in> set batch \<or> keys ! j \<in> dom (items s)" by simp
      moreover have "dom (items s) \<subseteq> dom (items s')" using mid(1) d2 by (rule subset_trans)
      ultimately show ?thesis using sb by (auto simp only: subset_iff)
    next
      case False
      with new(2) e j have "keys' ! j \<in> \<Union> (set ` set new) \<or> keys' ! j \<in> dom (items s')" by simp
      then show ?thesis by auto
    qed
  qed
  have f: "dom (items s) \<subseteq> dom (items s')" "version s' = version s" "versions s' = versions s"
    "subscription s' = subscription s"
    "created s' = created s" "updated s' = updated s" "deleted s' = deleted s"
    using rest mid by (auto simp: download_post_def)
  have "requested' = requested @ (bs @ new)" using new(1) by simp
  with cover f g3 show ?thesis
    unfolding download_post_def by blast
qed

lemma download_loop_post_aux:
  "download_loop env keys i s w requested = Some r \<Longrightarrow> i \<le> length keys \<longrightarrow>
   (case r of (err, s', keys', w', requested') \<Rightarrow> download_post keys i s requested err s' keys' requested')"
proof (rule download_loop.raw_induct
    [where P = "\<lambda>env keys i s w requested r. i \<le> length keys \<longrightarrow>
       (case r of (err, s', keys', w', requested') \<Rightarrow>
          download_post keys i s requested err s' keys' requested')"])
  fix f :: "'a env \<Rightarrow> string list \<Rightarrow> nat \<Rightarrow> session \<Rightarrow> 'a \<Rightarrow> string list list
     \<Rightarrow> (error option \<times> session \<times> string list \<times> 'a \<times> string list list) option"
    and env keys i s w requested r
  assume IH: "\<And>env keys i s w requested r. f env keys i s w requested = Some r \<Longrightarrow>
      i \<le> length keys \<longrightarrow>
      (case r of (err, s', keys', w', requested') \<Rightarrow>
         download_post keys i s requested err s' keys' requested')"
  assume st: "(if i < length keys then
        (case select_batch s keys i [] of
           Inl e \<Rightarrow> Some (Some e, s, keys, w, requested)
         | Inr (i', batch) \<Rightarrow>
             if batch = [] then f env keys i' s w requested
             else
               (case fetch env batch w of
                  (Inl e, w1) \<Rightarrow> Some (Some e, s, keys, w1, requested @ [batch])
                | (Inr message, w1) \<Rightarrow>
                    Option.bind (receive env message (Some keys) s w1)
                      (\<lambda>r. case r of
                             (err, s2, keys2, w2) \<Rightarrow>
                               (let keys' = (case keys2 of None \<Rightarrow> keys | Some ks \<Rightarrow> ks)
                                in case err of
                                     Some e \<Rightarrow> Some (Some e, s2, keys', w2, requested @ [batch])
                                   | None \<Rightarrow>
                                       f env keys' i' s2 w2 (requested @ [batch])))))
      else Some (None, s, keys, w, requested)) = Some r"
  show "i \<le> length keys \<longrightarrow> (case r of (err, s', keys', w', requested') \<Rightarrow>
          download_post keys i s requested err s' keys' requested')"
  proof
  assume le: "i \<le> length keys"
  have same: "dom (items s) \<subseteq> dom (items s)" "version s = version s" "versions s = versions s"
    "subscription s = subscription s" "created s = created s" "updated s = updated s"
    "deleted s = deleted s" by simp_all
  show "case r of (err, s', keys', w', requested') \<Rightarrow>
          download_post keys i s requested err s' keys' requested'"
  proof (cases "i < length keys")
    case False
    with st le show ?thesis by (auto simp: download_post_exit)
  next
    case True
    show ?thesis
    proof (cases "select_batch s keys i []")
      case (Inl e)
      with st True have "r = (Some e, s, keys, w, requested @ [])" by simp
      moreover have "download_post keys i s requested (Some e) s keys (requested @ [])"
        by (rule download_post_abort [OF same grows_refl])
      ultimately show ?thesis by simp
    next
      case (Inr p)
      obtain i' batch where p: "p = (i', batch)" by (cases p)
      from select_batch_post [OF Inr [unfolded p] le]
      have sel: "select_post s keys i [] i' batch" .
      then have i': "i' \<le> length keys" by (simp add: select_post_def)
      show ?thesis
      proof (cases "batch = []")
        case True
        with st \<open>i < length keys\<close> Inr p have c: "f env keys i' s w requested = Some r" by simp
        obtain err s' keys' w' requested' where r: "r = (err, s', keys', w', requested')"
          by (cases r) auto
        from IH [OF c] i' have "download_post keys i' s (requested @ []) err s' keys' requested'"
          by (simp add: r)
        from download_post_step [OF sel same grows_refl _ this] True show ?thesis
          by (simp add: r)
      next
        case False
        obtain res w1 where fe: "fetch env batch w = (res, w1)" by force
        show ?thesis
        proof (cases res)
          case (Inl e)
          with st \<open>i < length keys\<close> Inr p False fe have "r = (Some e, s, keys, w1, requested @ [batch])"
            by simp
          moreover have "download_post keys i s requested (Some e) s keys (requested @ [batch])"
            by (rule download_post_abort [OF same grows_refl])
          ultimately show ?thesis by simp
        next
          case (Inr message)
          with st \<open>i < length keys\<close> \<open>select_batch s keys i [] = Inr p\<close> p False fe
          have b: "Option.bind (receive env message (Some keys) s w1)
                      (\<lambda>r. case r of
                             (err, s2, keys2, w2) \<Rightarrow>
                               (let keys' = (case keys2 of None \<Rightarrow> keys | Some ks \<Rightarrow> ks)
                                in case err of
                                     Some e \<Rightarrow> Some (Some e, s2, keys', w2, requested @ [batch])
                                   | None \<Rightarrow>
                                       f env keys' i' s2 w2 (requested @ [batch]))) = Some r"
            by simp
          then obtain e1 s2 keys2 w2 where
            rc: "receive env message (Some keys) s w1 = Some (e1, s2, keys2, w2)"
            by (cases "receive env message (Some keys) s w1") auto
          from receive_post [OF rc] have rp: "receive_post (im_data message) (Some keys) s e1 s2 keys2" .
          then obtain ks2 where k2: "keys2 = Some ks2" and g: "grows (parents (im_data message)) keys ks2"
            by (auto simp: receive_post_def keys_grow_def)
          from rp have mid: "dom (items s) \<subseteq> dom (items s2)" "version s2 = version s"
            "versions s2 = versions s" "subscription s2 = subscription s"
            "created s2 = created s" "updated s2 = updated s" "deleted s2 = deleted s"
            by (simp_all add: receive_post_def)
          show ?thesis
          proof (cases e1)
            case (Some e)
            with b rc k2 have "r = (Some e, s2, ks2, w2, requested @ [batch])" by simp
            moreover have "download_post keys i s requested (Some e) s2 ks2 (requested @ [batch])"
              by (rule download_post_abort [OF mid g])
            ultimately show ?thesis by simp
          next
            case None
            with b rc k2 have c: "f env ks2 i' s2 w2 (requested @ [batch]) = Some r" by simp
            obtain err s' keys' w' requested' where r: "r = (err, s', keys', w', requested')"
              by (cases r) auto
            from i' grows_length [OF g] have "i' \<le> length ks2" by simp
            with IH [OF c] have "download_post ks2 i' s2 (requested @ [batch]) err s' keys' requested'"
              by (simp add: r)
            from download_post_step [OF sel mid g _ this] show ?thesis
              by (simp add: r)
          qed
        qed
      qed
    qed
  qed
  qed
qed

lemma download_loop_post:
  "download_loop env keys i s w requested = Some (err, s', keys', w', requested') \<Longrightarrow>
   i \<le> length keys \<Longrightarrow> download_post keys i s requested err s' keys' requested'"
  using download_loop_post_aux [of env keys i s w requested "(err, s', keys', w', requested')"]
  by simp


subsection \<open>receive and download return when the server is well-behaved\<close>







subsection \<open>Unfolding receive and download on a concrete input\<close>

lemma receive_loop_Nil: "receive_loop env [] keys s w = Some (None, s, keys, w)"
  by (subst receive_loop.simps) simp

lemma receive_loop_Cons:
  "receive_loop env (it # rest) keys s w =
          (let s1 = s\<lparr>items := (items s)(item_key it \<mapsto> it)\<rparr>;
               keys1 = push_parent it keys
           in if hasChildren it then
                (case children env (item_key it) w of
                   (Inl e, w1) \<Rightarrow> Some (Some e, s1, keys1, w1)
                 | (Inr message, w1) \<Rightarrow>
                     (case receive_head s1 message of
                        Inl e \<Rightarrow> Some (Some e, s1, keys1, w1)
                      | Inr its' \<Rightarrow>
                          Option.bind (receive_loop env its' None s1 w1)
                            (\<lambda>r. case r of
                                   (Some e, s2, _, w2) \<Rightarrow> Some (Some e, s2, keys1, w2)
                                 | (None, s2, _, w2) \<Rightarrow> receive_loop env rest keys1 s2 w2)))
              else receive_loop env rest keys1 s1 w)"
  by (subst receive_loop.simps) simp

lemma download_loop_exit:
  "\<not> i < length keys \<Longrightarrow> download_loop env keys i s w requested = Some (None, s, keys, w, requested)"
  by (subst download_loop.simps) simp

lemma download_loop_step:
  "i < length keys \<Longrightarrow> download_loop env keys i s w requested =
        (case select_batch s keys i [] of
           Inl e \<Rightarrow> Some (Some e, s, keys, w, requested)
         | Inr (i', batch) \<Rightarrow>
             if batch = [] then download_loop env keys i' s w requested
             else
               (case fetch env batch w of
                  (Inl e, w1) \<Rightarrow> Some (Some e, s, keys, w1, requested @ [batch])
                | (Inr message, w1) \<Rightarrow>
                    Option.bind (receive env message (Some keys) s w1)
                      (\<lambda>r. case r of
                             (err, s2, keys2, w2) \<Rightarrow>
                               (let keys' = (case keys2 of None \<Rightarrow> keys | Some ks \<Rightarrow> ks)
                                in case err of
                                     Some e \<Rightarrow> Some (Some e, s2, keys', w2, requested @ [batch])
                                   | None \<Rightarrow>
                                       download_loop env keys' i' s2 w2 (requested @ [batch])))))"
  by (subst download_loop.simps) simp

lemma select_batch_exit: "\<not> i < length keys \<Longrightarrow> select_batch s keys i batch = Inr (i, batch)"
  by (subst select_batch.simps) simp

lemma select_batch_step:
  "i < length keys \<Longrightarrow> select_batch s keys i batch =
        (let k = keys ! i;
             push = (let batch' = batch @ [k]
                     in if length batch' \<ge> MAX_BATCH_SIZE then Inr (i + 1, batch')
                        else select_batch s keys (i + 1) batch')
         in case items s k of
              None \<Rightarrow> push
            | Some it \<Rightarrow>
                (case versions s of
                   None \<Rightarrow> Inl TypeError
                 | Some vs \<Rightarrow>
                     if Some (item_version it) \<noteq> map_of vs k then push
                     else select_batch s keys (i + 1) batch))"
  by (subst select_batch.simps) simp

lemmas eval_simps =
  receive_loop_Nil receive_loop_Cons download_loop_exit download_loop_step
  select_batch_exit select_batch_step receive_def receive_head_def check_def push_parent_def
  getParent_def hasChildren_def library_def payload_def kids_tree_def kids_cycle_def
  download_def Session_def MAX_BATCH_SIZE_def Let_def


subsection \<open>check, and what an interrupted download keeps\<close>

lemma download_post:
  assumes "download env keys_arg s w = Some (err, s', keys', w', requested')"
  shows "download_post (case keys_arg of None \<Rightarrow> updated s @ created s | Some ks \<Rightarrow> ks) 0 s []
           err s' keys' requested'"
proof (cases "(case keys_arg of None \<Rightarrow> updated s @ created s | Some ks \<Rightarrow> ks) = []")
  case True
  with assms show ?thesis
    by (auto simp: download_def download_post_exit)
next
  case False
  with assms show ?thesis
    by (intro download_loop_post [of env _ 0 s w]) (simp_all add: download_def)
qed

text \<open>
  Claim C6. \<open>check s v\<close> returns true for every \<open>v\<close> while the session's version is
  undefined; once it is \<open>u\<close>, \<open>check s v\<close> returns true exactly when \<open>v = u\<close> and
  raises InterruptedError otherwise. \<open>receive\<close> runs the check before it merges
  anything: on a mismatch it raises InterruptedError and leaves the session, the key
  list and the world as they were. Everything in \<open>items\<close> stays there: a \<open>receive\<close>
  that succeeds has every item of its batch in \<open>items\<close>, and whatever is in \<open>items\<close>
  when the loop of \<open>download\<close> is at some cursor (so: everything merged from the
  batches before) is still there when the loop ends, with or without an error, and
  so for \<open>download\<close> as a whole.
\<close>

theorem check_guards_receive:
  "(version s = None \<longrightarrow> check s v = Inr True) \<and>
   (version s = Some u \<longrightarrow>
      (check s v = Inr True \<longleftrightarrow> v = u) \<and> (v \<noteq> u \<longrightarrow> check s v = Inl InterruptedError)) \<and>
   (version s = Some u \<and> im_version message \<noteq> u \<longrightarrow>
      receive env message keys s w = Some (Some InterruptedError, s, keys, w)) \<and>
   (receive env message keys s w = Some (None, s', keys', w') \<longrightarrow>
      item_key ` set (im_data message) \<subseteq> dom (items s')) \<and>
   (i \<le> length ks \<and> download_loop env ks i s w requested = Some (err, s2, ks2, w2, requested2) \<longrightarrow>
      dom (items s) \<subseteq> dom (items s2)) \<and>
   (download env keys_arg s w = Some (err, s3, ks3, w3, requested3) \<longrightarrow>
      dom (items s) \<subseteq> dom (items s3))"
proof (intro conjI impI)
  show "check s v = Inr True" if "version s = None"
    using that by (simp add: check_def)
  show "check s v = Inr True \<longleftrightarrow> v = u" if "version s = Some u"
    using that by (auto simp: check_def)
  show "check s v = Inl InterruptedError" if "version s = Some u" "v \<noteq> u"
    using that by (auto simp: check_def)
  show "receive env message keys s w = Some (Some InterruptedError, s, keys, w)"
    if "version s = Some u \<and> im_version message \<noteq> u"
    using that by (auto simp: receive_def receive_head_def check_def)
  show "item_key ` set (im_data message) \<subseteq> dom (items s')"
    if "receive env message keys s w = Some (None, s', keys', w')"
    using receive_post [OF that] by (simp add: receive_post_def)
  show "dom (items s) \<subseteq> dom (items s2)"
    if "i \<le> length ks \<and> download_loop env ks i s w requested = Some (err, s2, ks2, w2, requested2)"
    using download_loop_post [of env ks i s w requested err s2 ks2 w2 requested2] that
    by (simp add: download_post_def)
  show "dom (items s) \<subseteq> dom (items s3)"
    if "download env keys_arg s w = Some (err, s3, ks3, w3, requested3)"
    using download_post [OF that] by (simp add: download_post_def)
qed

text \<open>
  The library changes after two requests. A session that has seen version 2 and
  holds \<open>Q\<close> downloads \<open>[X]\<close>: the batch \<open>[X]\<close> and the children of \<open>X\<close> arrive at
  version 2 and are merged, the batch \<open>[P]\<close> arrives at version 3, and the download
  is interrupted with \<open>Q\<close>, \<open>X\<close> and \<open>C\<close> in \<open>items\<close>.
\<close>

theorem check_guards_receive_witness:
  "check (Session sub0) 7 = Inr True \<and>
   check seen2 2 = Inr True \<and>
   check seen2 3 = Inl InterruptedError \<and>
   receive (library 0 kids_tree) \<lparr>im_type = ''json'', im_version = 3, im_data = [payload ''P'']\<rparr>
     (Some [''X'', ''P'']) seen2 0 = Some (Some InterruptedError, seen2, Some [''X'', ''P''], 0) \<and>
   (\<exists>s' w'. receive (library 2 kids_tree)
              \<lparr>im_type = ''json'', im_version = 2, im_data = [payload ''X'']\<rparr>
              (Some [''X'']) seen2 1 = Some (None, s', Some [''X'', ''P''], w') \<and>
            ''X'' \<in> dom (items s')) \<and>
   (\<exists>s' ks' w' requested'.
      download (library 2 kids_tree) (Some [''X'']) seen2 0 =
        Some (Some InterruptedError, s', ks', w', requested') \<and>
      requested' = [[''X''], [''P'']] \<and> {''Q'', ''X'', ''C''} \<subseteq> dom (items s')) \<and>
   (\<exists>s' ks' w' requested'.
      download_loop (library 2 kids_tree) [''X''] 0 seen2 0 [] =
        Some (Some InterruptedError, s', ks', w', requested') \<and> ''Q'' \<in> dom (items s'))"
proof -
  let ?m3 = "\<lparr>im_type = ''json'', im_version = 3, im_data = [payload ''P'']\<rparr>"
  let ?m2 = "\<lparr>im_type = ''json'', im_version = 2, im_data = [payload ''X'']\<rparr>"
  let ?s' = "seen2\<lparr>items := [''Q'' \<mapsto> payload ''Q'', ''X'' \<mapsto> payload ''X'', ''C'' \<mapsto> payload ''C'']\<rparr>"
  have v0: "version (Session sub0) = None" by (simp add: Session_def)
  have v2: "version seen2 = Some 2" by (simp add: seen2_def)
  have 1: "check (Session sub0) 7 = Inr True"
    by (rule check_guards_receive [THEN conjunct1, rule_format, OF v0])
  have 2: "check seen2 2 = Inr True"
    using check_guards_receive [THEN conjunct2, THEN conjunct1, rule_format, OF v2, of 2] by simp
  have 3: "check seen2 3 = Inl InterruptedError"
    using check_guards_receive [THEN conjunct2, THEN conjunct1, rule_format, OF v2, of 3] by simp
  have 4: "receive (library 0 kids_tree) ?m3 (Some [''X'', ''P'']) seen2 0 =
             Some (Some InterruptedError, seen2, Some [''X'', ''P''], 0)"
    by (rule check_guards_receive [where u = 2, THEN conjunct2, THEN conjunct2, THEN conjunct1,
          rule_format])
       (simp add: v2)
  have r: "receive (library 2 kids_tree) ?m2 (Some [''X'']) seen2 1 =
             Some (None, ?s', Some [''X'', ''P''], 2)"
    by (simp add: eval_simps seen2_def)
  have 5: "''X'' \<in> dom (items ?s')"
    using check_guards_receive [THEN conjunct2, THEN conjunct2, THEN conjunct2, THEN conjunct1,
        rule_format, OF r]
    by (simp add: payload_def)
  have d: "download (library 2 kids_tree) (Some [''X'']) seen2 0 =
             Some (Some InterruptedError, ?s', [''X'', ''P''], 3, [[''X''], [''P'']])"
    by (simp add: eval_simps seen2_def)
  have 6: "{''Q'', ''X'', ''C''} \<subseteq> dom (items ?s')"
    using check_guards_receive [THEN conjunct2, THEN conjunct2, THEN conjunct2, THEN conjunct2,
        THEN conjunct2, rule_format, OF d]
    by (simp add: seen2_def)
  have l: "download_loop (library 2 kids_tree) [''X''] 0 seen2 0 [] =
             Some (Some InterruptedError, ?s', [''X'', ''P''], 3, [[''X''], [''P'']])"
    by (simp add: eval_simps seen2_def)
  have 7: "''Q'' \<in> dom (items ?s')"
    using check_guards_receive [THEN conjunct2, THEN conjunct2, THEN conjunct2, THEN conjunct2,
        THEN conjunct1, rule_format, of 0 "[''X'']", OF conjI [OF _ l]]
    by (auto simp: seen2_def)
  from 1 2 3 4 r 5 d 6 l 7 show ?thesis by blast
qed


subsection \<open>execute\<close>

text \<open>
  Claim C7. When the attempt (\<open>update\<close>, then \<open>download\<close> unless \<open>skip\<close>) raises
  InterruptedError and \<open>retry\<close> is not zero (so for every \<open>retry > 0\<close>), \<open>execute\<close> is
  its own re-invocation with \<open>retry - 1\<close> on the session as the attempt left it,
  after the delay of \<open>resume\<close> = 5000 milliseconds. When \<open>retry\<close> is zero, or the error
  is not an InterruptedError, the error is the result of \<open>execute\<close>, with the session
  and the world as the single attempt left them: no delay, no second attempt. An
  absent \<open>retry\<close> counts as 3.
\<close>

theorem execute_retry:
  "(attempt env skip s w = Some (Some InterruptedError, s', w') \<and> retry \<noteq> 0 \<longrightarrow>
      execute env skip (Some retry) s w =
        execute env skip (Some (retry - 1)) s' (delay env 5000 w')) \<and>
   (attempt env skip s w = Some (Some e, s', w') \<and> (retry = 0 \<or> e \<noteq> InterruptedError) \<longrightarrow>
      execute env skip (Some retry) s w = Some (Some e, s', w')) \<and>
   (attempt env skip s w = Some (None, s', w') \<longrightarrow>
      execute env skip (Some retry) s w = Some (None, s', w')) \<and>
   execute env skip None s w = execute env skip (Some 3) s w"
proof (intro conjI impI)
  show "execute env skip (Some retry) s w =
        execute env skip (Some (retry - 1)) s' (delay env 5000 w')"
    if "attempt env skip s w = Some (Some InterruptedError, s', w') \<and> retry \<noteq> 0"
    using that by (subst execute.simps) (simp add: resume_def)
  show "execute env skip (Some retry) s w = Some (Some e, s', w')"
    if "attempt env skip s w = Some (Some e, s', w') \<and> (retry = 0 \<or> e \<noteq> InterruptedError)"
    using that by (subst execute.simps) auto
  show "execute env skip (Some retry) s w = Some (None, s', w')"
    if "attempt env skip s w = Some (None, s', w')"
    using that by (subst execute.simps) simp
  show "execute env skip None s w = execute env skip (Some 3) s w"
    by (subst (1 2) execute.simps) simp
qed


text \<open>
  The library changes after two requests, and plain retries follow. The first attempt
  is interrupted at its third request (the children of \<open>X\<close>). With \<open>retry = 0\<close> the
  InterruptedError is the result, after three requests. With \<open>retry = 1\<close> the second
  attempt succeeds, seven requests in all. When the server is offline, the error is
  the result after one request, whatever \<open>retry\<close> is.
\<close>

theorem execute_retry_witness:
  "map_option (\<lambda>(err, s, w). (err, w)) (execute (library 2 kids_tree) False (Some 0) (Session sub0) 0) =
     Some (Some InterruptedError, 3) \<and>
   map_option (\<lambda>(err, s, w). (err, w)) (execute (library 2 kids_tree) False (Some 1) (Session sub0) 0) =
     Some (None, 7) \<and>
   map_option (\<lambda>(err, s, w). (err, w))
     (execute ((library 2 kids_tree)\<lparr>get_versions := (\<lambda>w. (Inl (Error ''offline''), w + 1))\<rparr>)
        False None (Session sub0) 0) =
     Some (Some (Error ''offline''), 1)"
proof -
  let ?env = "library 2 kids_tree"
  let ?off = "(library 2 kids_tree)\<lparr>get_versions := (\<lambda>w. (Inl (Error ''offline''), w + 1))\<rparr>"
  let ?s1 = "(Session sub0)\<lparr>version := Some 2, versions := Some [(''X'', 2)],
                created := [''X''], items := [''X'' \<mapsto> payload ''X'']\<rparr>"
  let ?s2 = "(Session sub0)\<lparr>version := Some 3, versions := Some [(''X'', 3)],
                created := [''X''],
                items := [''X'' \<mapsto> payload ''X'', ''C'' \<mapsto> payload ''C'', ''P'' \<mapsto> payload ''P'']\<rparr>"
  have a1: "attempt ?env False (Session sub0) 0 = Some (Some InterruptedError, ?s1, 3)"
    by (simp add: attempt_def update_def diff_def hasOwnProperty_def sub0_def eval_simps)
  have a2: "attempt ?env False ?s1 3 = Some (None, ?s2, 7)"
    by (simp add: attempt_def update_def diff_def hasOwnProperty_def sub0_def eval_simps)
  have a3: "attempt ?off False (Session sub0) 0 =
              Some (Some (Error ''offline''), (Session sub0)\<lparr>version := None\<rparr>, 1)"
    by (simp add: attempt_def update_def)
  have dl: "delay ?env 5000 3 = 3" by (simp add: library_def)
  have e0: "execute ?env False (Some 0) (Session sub0) 0 = Some (Some InterruptedError, ?s1, 3)"
    by (rule execute_retry [THEN conjunct2, THEN conjunct1, rule_format]) (use a1 in simp)
  have "execute ?env False (Some 1) (Session sub0) 0 = execute ?env False (Some (1 - 1)) ?s1 (delay ?env 5000 3)"
    by (rule execute_retry [THEN conjunct1, rule_format]) (use a1 in simp)
  also have "\<dots> = Some (None, ?s2, 7)"
    unfolding dl by (rule execute_retry [THEN conjunct2, THEN conjunct2, THEN conjunct1, rule_format]) (rule a2)
  finally have e1: "execute ?env False (Some 1) (Session sub0) 0 = Some (None, ?s2, 7)" .
  have "execute ?off False None (Session sub0) 0 = execute ?off False (Some 3) (Session sub0) 0"
    by (rule execute_retry [THEN conjunct2, THEN conjunct2, THEN conjunct2])
  also have "\<dots> = Some (Some (Error ''offline''), (Session sub0)\<lparr>version := None\<rparr>, 1)"
    by (rule execute_retry [THEN conjunct2, THEN conjunct1, rule_format]) (use a3 in simp)
  finally have e3: "execute ?off False None (Session sub0) 0 =
     Some (Some (Error ''offline''), (Session sub0)\<lparr>version := None\<rparr>, 1)" .
  show ?thesis
    unfolding e0 e1 e3 by simp
qed


subsection \<open>Parents are appended and fetched\<close>

text \<open>
  The batch selection goes over the keys from the cursor on and puts into the batch
  exactly those that are not cached at the version of the manifest.
\<close>

lemma select_batch_exact:
  "select_batch s keys i batch = Inr (i', batch') \<Longrightarrow>
   i \<le> i' \<and> i' \<le> max i (length keys) \<and>
   batch' = batch @ filter (\<lambda>k. \<not> is_cached s k) (take (i' - i) (drop i keys))"
proof (induction s keys i batch rule: select_batch.induct)
  case (1 s keys i batch)
  show ?case
  proof (cases "i < length keys")
    case False
    with "1.prems" show ?thesis
      by (subst (asm) select_batch.simps) auto
  next
    case True
    let ?k = "keys ! i"
    let ?b = "batch @ [?k]"
    have hd: "i < j \<Longrightarrow> take (j - i) (drop i keys) = ?k # take (j - Suc i) (drop (Suc i) keys)" for j
    proof -
      assume "i < j"
      then have e: "j - i = Suc (j - Suc i)" by arith
      from True have d: "drop i keys = ?k # drop (Suc i) keys"
        by (rule Cons_nth_drop_Suc [symmetric])
      have "take (Suc (j - Suc i)) (?k # drop (Suc i) keys) = ?k # take (j - Suc i) (drop (Suc i) keys)"
        by (rule take_Suc_Cons)
      then show ?thesis by (metis e d)
    qed
    have push: "(if length ?b \<ge> MAX_BATCH_SIZE then Inr (i + 1, ?b)
                 else select_batch s keys (i + 1) ?b) = Inr (i', batch') \<Longrightarrow>
                \<not> is_cached s ?k \<Longrightarrow> ?thesis"
    proof (cases "length ?b \<ge> MAX_BATCH_SIZE")
      case True
      assume "(if length ?b \<ge> MAX_BATCH_SIZE then Inr (i + 1, ?b)
                 else select_batch s keys (i + 1) ?b) = Inr (i', batch')"
        and nc: "\<not> is_cached s ?k"
      with True have e: "i' = Suc i" "batch' = ?b" by simp_all
      have "i < i'" using e by simp
      note t = hd [OF this]
      show ?thesis unfolding t using e nc \<open>i < length keys\<close> by simp
    next
      case False
      assume "(if length ?b \<ge> MAX_BATCH_SIZE then Inr (i + 1, ?b)
                 else select_batch s keys (i + 1) ?b) = Inr (i', batch')"
        and nc: "\<not> is_cached s ?k"
      with False have r: "select_batch s keys (i + 1) ?b = Inr (i', batch')" by simp
      from "1.IH"(1) [OF True refl refl False r]
      have ih: "Suc i \<le> i'" "i' \<le> max (Suc i) (length keys)"
        "batch' = ?b @ filter (\<lambda>k. \<not> is_cached s k) (take (i' - Suc i) (drop (Suc i) keys))"
        by simp_all
      from ih(2) \<open>i < length keys\<close> have le: "i' \<le> length keys" by simp
      have "i < i'" using ih(1) by simp
      note t = hd [OF this]
      show ?thesis unfolding t using ih(1,3) le nc by simp
    qed
    show ?thesis
    proof (cases "items s ?k")
      case None
      then have nc: "\<not> is_cached s ?k" by (simp add: is_cached_def)
      from "1.prems"(1) True None
      have "(if length ?b \<ge> MAX_BATCH_SIZE then Inr (i + 1, ?b)
             else select_batch s keys (i + 1) ?b) = Inr (i', batch')"
        by (subst (asm) select_batch.simps) (simp add: Let_def)
      then show ?thesis using nc by (rule push)
    next
      case (Some it)
      show ?thesis
      proof (cases "versions s")
        case None
        with "1.prems"(1) True Some show ?thesis
          by (subst (asm) select_batch.simps) (simp add: Let_def)
      next
        case vs: (Some vs)
        show ?thesis
        proof (cases "Some (item_version it) \<noteq> map_of vs ?k")
          case True
          with Some vs have nc: "\<not> is_cached s ?k" by (auto simp: is_cached_def)
          from True "1.prems"(1) \<open>i < length keys\<close> Some vs
          have "(if length ?b \<ge> MAX_BATCH_SIZE then Inr (i + 1, ?b)
                 else select_batch s keys (i + 1) ?b) = Inr (i', batch')"
            by (subst (asm) select_batch.simps) (simp add: Let_def)
          then show ?thesis using nc by (rule push)
        next
          case False
          with Some vs have c: "is_cached s ?k" by (auto simp: is_cached_def)
          from False "1.prems"(1) \<open>i < length keys\<close> Some vs
          have r: "select_batch s keys (i + 1) batch = Inr (i', batch')"
            by (subst (asm) select_batch.simps) (simp add: Let_def)
          from "1.IH"(2) [OF \<open>i < length keys\<close> refl refl Some vs _ r] False
          have ih: "Suc i \<le> i'" "i' \<le> max (Suc i) (length keys)"
            "batch' = batch @ filter (\<lambda>k. \<not> is_cached s k) (take (i' - Suc i) (drop (Suc i) keys))"
            by simp_all
          from ih(2) \<open>i < length keys\<close> have le: "i' \<le> length keys" by simp
          have "i < i'" using ih(1) by simp
          note t = hd [OF this]
          show ?thesis unfolding t using ih(1,3) le c by simp
        qed
      qed
    qed
  qed
qed

lemma select_batch_scan:
  assumes "select_batch s keys i batch = Inr (i', batch')" and "i \<le> j" and "j < i'"
  shows "j < length keys \<and>
         (keys ! j \<in> set batch' \<or> is_cached s (keys ! j)) \<and>
         (set batch \<inter> {k. is_cached s k} = {} \<longrightarrow> \<not> (keys ! j \<in> set batch' \<and> is_cached s (keys ! j)))"
proof -
  from select_batch_exact [OF assms(1)] assms(2,3)
  have le: "i' \<le> length keys"
    and b: "batch' = batch @ filter (\<lambda>k. \<not> is_cached s k) (take (i' - i) (drop i keys))"
    by auto
  from assms(2,3) le have j: "j < length keys" by simp
  from assms(2,3) le have "keys ! j = take (i' - i) (drop i keys) ! (j - i)"
    by simp
  moreover from assms(2,3) le have "j - i < length (take (i' - i) (drop i keys))" by simp
  ultimately have "keys ! j \<in> set (take (i' - i) (drop i keys))"
    by (metis nth_mem)
  with b j show ?thesis by auto
qed

text \<open>One pass of the loop of \<open>download\<close>, and the states that the loop visits.\<close>

lemma visits_refl: "visits env c c"
  by (simp add: visits_def)

lemma visits_step: "iteration env c = Some c1 \<Longrightarrow> visits env c1 c' \<Longrightarrow> visits env c c'"
  unfolding visits_def by (rule converse_rtranclp_into_rtranclp)

lemma iteration_facts:
  assumes "iteration env (keys, i, s, w, requested) = Some (ks1, i1, s1, w1, r1)"
  shows "\<exists>batch extra. select_batch s keys i [] = Inr (i1, batch) \<and> ks1 = keys @ extra \<and>
           r1 = requested @ (if batch = [] then [] else [batch])"
proof -
  from assms have lt: "i < length keys"
    by (simp add: iteration_def split: if_splits)
  from assms lt obtain i' batch where sb: "select_batch s keys i [] = Inr (i', batch)"
    by (cases "select_batch s keys i []") (auto simp: iteration_def)
  show ?thesis
  proof (cases "batch = []")
    case True
    with assms lt sb show ?thesis by (simp add: iteration_def)
  next
    case False
    obtain res wa where fe: "fetch env batch w = (res, wa)" by force
    with assms lt sb False obtain message where m: "res = Inr message"
      by (cases res) (auto simp: iteration_def)
    with assms lt sb False fe obtain e1 s2 keys2 w2 where
      rc: "receive env message (Some keys) s wa = Some (e1, s2, keys2, w2)"
      by (cases "receive env message (Some keys) s wa") (auto simp: iteration_def)
    from receive_post [OF rc] obtain ks2 where k2: "keys2 = Some ks2"
      and g: "grows (parents (im_data message)) keys ks2"
      by (auto simp: receive_post_def keys_grow_def)
    from assms lt sb False fe m rc k2 have "e1 = None" "ks1 = ks2" "i1 = i'" "r1 = requested @ [batch]"
      by (auto simp: iteration_def split: option.splits)
    with g sb False show ?thesis by (auto simp: grows_def)
  qed
qed

lemma iteration_body:
  assumes "i < length keys"
    and "(case select_batch s keys i [] of
           Inl e \<Rightarrow> Some (Some e, s, keys, w, requested)
         | Inr (i', batch) \<Rightarrow>
             if batch = [] then f env keys i' s w requested
             else
               (case fetch env batch w of
                  (Inl e, w1) \<Rightarrow> Some (Some e, s, keys, w1, requested @ [batch])
                | (Inr message, w1) \<Rightarrow>
                    Option.bind (receive env message (Some keys) s w1)
                      (\<lambda>r. case r of
                             (err, s2, keys2, w2) \<Rightarrow>
                               (let keys' = (case keys2 of None \<Rightarrow> keys | Some ks \<Rightarrow> ks)
                                in case err of
                                     Some e \<Rightarrow> Some (Some e, s2, keys', w2, requested @ [batch])
                                   | None \<Rightarrow>
                                       f env keys' i' s2 w2 (requested @ [batch]))))) =
         Some (None, s', ks', w', requested')"
  shows "\<exists>ks1 i1 s1 w1 r1. iteration env (keys, i, s, w, requested) = Some (ks1, i1, s1, w1, r1) \<and>
           f env ks1 i1 s1 w1 r1 = Some (None, s', ks', w', requested')"
  using assms
  by (auto simp: iteration_def Let_def split: sum.splits prod.splits option.splits if_splits
        Option.bind_splits)

lemma scanned_here:
  assumes sb: "select_batch s keys i [] = Inr (i', batch)" and "i \<le> j" and "j < i'"
    and "batch \<noteq> [] \<longrightarrow> batch \<in> set new"
  shows "scanned env (keys, i, s, w, requested) new j (keys ! j)"
proof -
  from select_batch_scan [OF sb assms(2,3)]
  have d: "keys ! j \<in> set batch \<or> is_cached s (keys ! j)"
    and x: "\<not> (keys ! j \<in> set batch \<and> is_cached s (keys ! j))" by simp_all
  from d x assms(4) have "is_cached s (keys ! j) \<and> keys ! j \<notin> set batch \<or>
      \<not> is_cached s (keys ! j) \<and> keys ! j \<in> set batch \<and> batch \<in> set new"
    by auto
  with visits_refl [of env "(keys, i, s, w, requested)"] sb assms(2,3)
  have "visits env (keys, i, s, w, requested) (keys, i, s, w, requested) \<and>
        select_batch s keys i [] = Inr (i', batch) \<and> i \<le> j \<and> j < i' \<and>
        (is_cached s (keys ! j) \<and> keys ! j \<notin> set batch \<or>
         \<not> is_cached s (keys ! j) \<and> keys ! j \<in> set batch \<and> batch \<in> set new)"
    by simp
  then show ?thesis unfolding scanned_def by (intro exI)
qed

lemma scanned_step:
  assumes it: "iteration env c = Some c1" and sc: "scanned env c1 new1 j k"
    and sub: "set new1 \<subseteq> set new"
  shows "scanned env c new j k"
proof -
  from sc obtain ksa ia sa wa ra i' batch where
    v: "visits env c1 (ksa, ia, sa, wa, ra)"
    and o: "select_batch sa ksa ia [] = Inr (i', batch)" "ia \<le> j" "j < i'"
    and d: "is_cached sa k \<and> k \<notin> set batch \<or>
         \<not> is_cached sa k \<and> k \<in> set batch \<and> batch \<in> set new1"
    unfolding scanned_def by (elim exE conjE)
  from d sub have "is_cached sa k \<and> k \<notin> set batch \<or>
         \<not> is_cached sa k \<and> k \<in> set batch \<and> batch \<in> set new"
    by auto
  with visits_step [OF it v] o
  have "visits env c (ksa, ia, sa, wa, ra) \<and>
        select_batch sa ksa ia [] = Inr (i', batch) \<and> ia \<le> j \<and> j < i' \<and>
        (is_cached sa k \<and> k \<notin> set batch \<or>
         \<not> is_cached sa k \<and> k \<in> set batch \<and> batch \<in> set new)"
    by simp
  then show ?thesis unfolding scanned_def by (intro exI)
qed

lemma download_loop_scans_aux:
  "download_loop env keys i s w requested = Some r \<Longrightarrow>
   (\<forall>s' ks' w' requested'. r = (None, s', ks', w', requested') \<longrightarrow>
      (\<exists>extra new. ks' = keys @ extra \<and> requested' = requested @ new \<and>
         (\<forall>j. i \<le> j \<and> j < length ks' \<longrightarrow>
            scanned env (keys, i, s, w, requested) new j (ks' ! j))))"
proof (rule download_loop.raw_induct
    [where P = "\<lambda>env keys i s w requested r.
      (\<forall>s' ks' w' requested'. r = (None, s', ks', w', requested') \<longrightarrow>
      (\<exists>extra new. ks' = keys @ extra \<and> requested' = requested @ new \<and>
         (\<forall>j. i \<le> j \<and> j < length ks' \<longrightarrow>
            scanned env (keys, i, s, w, requested) new j (ks' ! j))))"])
  fix f :: "'a env \<Rightarrow> string list \<Rightarrow> nat \<Rightarrow> session \<Rightarrow> 'a \<Rightarrow> string list list
     \<Rightarrow> (error option \<times> session \<times> string list \<times> 'a \<times> string list list) option"
    and env keys i s w requested r
  assume IH: "\<And>env keys i s w requested r. f env keys i s w requested = Some r \<Longrightarrow>
      (\<forall>s' ks' w' requested'. r = (None, s', ks', w', requested') \<longrightarrow>
      (\<exists>extra new. ks' = keys @ extra \<and> requested' = requested @ new \<and>
         (\<forall>j. i \<le> j \<and> j < length ks' \<longrightarrow>
            scanned env (keys, i, s, w, requested) new j (ks' ! j))))"
  assume st: "(if i < length keys then
        (case select_batch s keys i [] of
           Inl e \<Rightarrow> Some (Some e, s, keys, w, requested)
         | Inr (i', batch) \<Rightarrow>
             if batch = [] then f env keys i' s w requested
             else
               (case fetch env batch w of
                  (Inl e, w1) \<Rightarrow> Some (Some e, s, keys, w1, requested @ [batch])
                | (Inr message, w1) \<Rightarrow>
                    Option.bind (receive env message (Some keys) s w1)
                      (\<lambda>r. case r of
                             (err, s2, keys2, w2) \<Rightarrow>
                               (let keys' = (case keys2 of None \<Rightarrow> keys | Some ks \<Rightarrow> ks)
                                in case err of
                                     Some e \<Rightarrow> Some (Some e, s2, keys', w2, requested @ [batch])
                                   | None \<Rightarrow>
                                       f env keys' i' s2 w2 (requested @ [batch])))))
      else Some (None, s, keys, w, requested)) = Some r"
  show "\<forall>s' ks' w' requested'. r = (None, s', ks', w', requested') \<longrightarrow>
      (\<exists>extra new. ks' = keys @ extra \<and> requested' = requested @ new \<and>
         (\<forall>j. i \<le> j \<and> j < length ks' \<longrightarrow>
            scanned env (keys, i, s, w, requested) new j (ks' ! j)))"
  proof (intro allI impI)
    fix s' ks' w' requested'
    assume r: "r = (None, s', ks', w', requested')"
    show "\<exists>extra new. ks' = keys @ extra \<and> requested' = requested @ new \<and>
         (\<forall>j. i \<le> j \<and> j < length ks' \<longrightarrow>
            scanned env (keys, i, s, w, requested) new j (ks' ! j))"
    proof (cases "i < length keys")
      case False
      with st r have e: "ks' = keys @ []" "requested' = requested @ []" by simp_all
      from False e(1) have "\<forall>j. i \<le> j \<and> j < length ks' \<longrightarrow>
            scanned env (keys, i, s, w, requested) [] j (ks' ! j)"
        by auto
      with e show ?thesis by blast
    next
      case True
      with st r have b: "(case select_batch s keys i [] of
           Inl e \<Rightarrow> Some (Some e, s, keys, w, requested)
         | Inr (i', batch) \<Rightarrow>
             if batch = [] then f env keys i' s w requested
             else
               (case fetch env batch w of
                  (Inl e, w1) \<Rightarrow> Some (Some e, s, keys, w1, requested @ [batch])
                | (Inr message, w1) \<Rightarrow>
                    Option.bind (receive env message (Some keys) s w1)
                      (\<lambda>r. case r of
                             (err, s2, keys2, w2) \<Rightarrow>
                               (let keys' = (case keys2 of None \<Rightarrow> keys | Some ks \<Rightarrow> ks)
                                in case err of
                                     Some e \<Rightarrow> Some (Some e, s2, keys', w2, requested @ [batch])
                                   | None \<Rightarrow>
                                       f env keys' i' s2 w2 (requested @ [batch]))))) =
         Some (None, s', ks', w', requested')" by simp
      from iteration_body [where f = f and env = env, OF True b] obtain ks1 i1 s1 w1 r1 where
        it: "iteration env (keys, i, s, w, requested) = Some (ks1, i1, s1, w1, r1)"
        and c: "f env ks1 i1 s1 w1 r1 = Some (None, s', ks', w', requested')"
        by (elim exE conjE)
      from iteration_facts [OF it] obtain batch e1 where
        sb: "select_batch s keys i [] = Inr (i1, batch)" and k1: "ks1 = keys @ e1"
        and q1: "r1 = requested @ (if batch = [] then [] else [batch])"
        by (elim exE conjE)
      from IH [OF c] obtain extra1 new1 where
        e: "ks' = ks1 @ extra1" and n: "requested' = r1 @ new1"
        and cov: "\<forall>j. i1 \<le> j \<and> j < length ks' \<longrightarrow>
                    scanned env (ks1, i1, s1, w1, r1) new1 j (ks' ! j)"
        by blast
      let ?new = "(if batch = [] then [] else [batch]) @ new1"
      have k: "ks' = keys @ (e1 @ extra1)" using e k1 by simp
      have q: "requested' = requested @ ?new" using n q1 by simp
      have "scanned env (keys, i, s, w, requested) ?new j (ks' ! j)"
        if j: "i \<le> j \<and> j < length ks'" for j
      proof (cases "j < i1")
        case True
        from j have ij: "i \<le> j" by simp
        from select_batch_scan [OF sb ij True] have jl: "j < length keys" by simp
        with k have same: "ks' ! j = keys ! j" by (simp add: nth_append)
        have "batch \<noteq> [] \<longrightarrow> batch \<in> set ?new" by simp
        from scanned_here [OF sb ij True this] show ?thesis
          unfolding same .
      next
        case False
        with j cov have "scanned env (ks1, i1, s1, w1, r1) new1 j (ks' ! j)"
          by simp
        from scanned_step [OF it this] show ?thesis by simp
      qed
      then have "\<forall>j. i \<le> j \<and> j < length ks' \<longrightarrow>
            scanned env (keys, i, s, w, requested) ?new j (ks' ! j)" by simp
      with k q show ?thesis by blast
    qed
  qed
qed

lemma download_loop_scans:
  assumes "download_loop env keys i s w requested = Some (None, s', ks', w', requested')"
  shows "\<exists>extra new. ks' = keys @ extra \<and> requested' = requested @ new \<and>
         (\<forall>j. i \<le> j \<and> j < length ks' \<longrightarrow>
            scanned env (keys, i, s, w, requested) new j (ks' ! j))"
  using download_loop_scans_aux [OF assms] by simp

text \<open>
  Claim C9, as the code has it. When \<open>receive\<close> merges a batch for \<open>download\<close>
  without an error, the key list afterwards is the list before with, appended at its
  end and each once, exactly the parent keys that the items of the batch name and
  that were not in the list. When the loop of \<open>download\<close>, at any cursor \<open>i\<close>, ends
  without an error, the final key list extends the list it started from, and for
  every key at or after the cursor (so for every parent appended from then on) the
  loop comes to a state whose batch selection goes over the key, and there the key
  is either put into the batch, which is requested, or left out of it; it is left
  out exactly when, in that state, \<open>items\<close> holds a payload for the key whose
  version is the one that the manifest gives for the key.
\<close>

theorem download_appends_and_fetches_parents:
  "(receive env message (Some ks) s w = Some (None, s1, keys1, w1) \<longrightarrow>
      (\<exists>extra. keys1 = Some (ks @ extra) \<and> distinct extra \<and>
               set extra = parents (im_data message) - set ks)) \<and>
   (download_loop env ks i s w requested = Some (None, s', ks', w', requested') \<longrightarrow>
      (\<exists>extra new. ks' = ks @ extra \<and> requested' = requested @ new \<and>
         (\<forall>j. i \<le> j \<and> j < length ks' \<longrightarrow>
            (\<exists>ksa ia sa wa ra i' batch.
               visits env (ks, i, s, w, requested) (ksa, ia, sa, wa, ra) \<and>
               select_batch sa ksa ia [] = Inr (i', batch) \<and> ia \<le> j \<and> j < i' \<and>
               (is_cached sa (ks' ! j) \<and> ks' ! j \<notin> set batch \<or>
                \<not> is_cached sa (ks' ! j) \<and> ks' ! j \<in> set batch \<and> batch \<in> set new)))))"
proof (intro conjI impI)
  assume "receive env message (Some ks) s w = Some (None, s1, keys1, w1)"
  from receive_post [OF this]
  have rp: "receive_post (im_data message) (Some ks) s None s1 keys1" .
  then obtain extra where e: "keys1 = Some (ks @ extra)" "distinct extra"
    "set extra \<inter> set ks = {}" "set extra \<subseteq> parents (im_data message)"
    by (auto simp: receive_post_def keys_grow_def grows_def)
  from rp e(1) have "parents (im_data message) \<subseteq> set (ks @ extra)"
    by (simp add: receive_post_def)
  with e(3,4) have "set extra = parents (im_data message) - set ks" by auto
  with e(1,2) show "\<exists>extra. keys1 = Some (ks @ extra) \<and> distinct extra \<and>
               set extra = parents (im_data message) - set ks" by blast
next
  assume "download_loop env ks i s w requested = Some (None, s', ks', w', requested')"
  from download_loop_scans [OF this]
  show "\<exists>extra new. ks' = ks @ extra \<and> requested' = requested @ new \<and>
         (\<forall>j. i \<le> j \<and> j < length ks' \<longrightarrow>
            (\<exists>ksa ia sa wa ra i' batch.
               visits env (ks, i, s, w, requested) (ksa, ia, sa, wa, ra) \<and>
               select_batch sa ksa ia [] = Inr (i', batch) \<and> ia \<le> j \<and> j < i' \<and>
               (is_cached sa (ks' ! j) \<and> ks' ! j \<notin> set batch \<or>
                \<not> is_cached sa (ks' ! j) \<and> ks' ! j \<in> set batch \<and> batch \<in> set new)))"
    unfolding scanned_def .
qed

text \<open>
  The example of the specification: the keys are \<open>[X]\<close>, the payload of \<open>X\<close> names the
  parent \<open>P\<close>, and nothing is cached. \<open>receive\<close> appends \<open>P\<close>; the one call of
  \<open>download\<close> ends with the key list \<open>[X, P]\<close> after requesting \<open>[X]\<close> and then \<open>[P]\<close>.
  The same requests are sent when the session holds a payload of \<open>P\<close> that is out of
  date.
\<close>

theorem download_appends_and_fetches_parents_witness:
  "(\<exists>s1. receive (library 100 kids_tree)
            \<lparr>im_type = ''json'', im_version = 2, im_data = [payload ''X'']\<rparr>
            (Some [''X'']) (Session sub0) 1 = Some (None, s1, Some [''X'', ''P''], 2)) \<and>
   parents [payload ''X''] - set [''X''] = {''P''} \<and>
   (\<exists>s'. download (library 100 kids_tree) (Some [''X'']) (Session sub0) 0 =
           Some (None, s', [''X'', ''P''], 3, [[''X''], [''P'']])) \<and>
   map_option (\<lambda>(err, s, ks, w, requested). (err, ks, requested))
     (download (library 100 kids_tree) (Some [''X'']) staleP 0) =
     Some (None, [''X'', ''P''], [[''X''], [''P'']]) \<and>
   (\<exists>s' w'. download_loop (library 100 kids_tree) [''X''] 0 staleP 0 [] =
           Some (None, s', [''X'', ''P''], w', [[''X''], [''P'']])) \<and>
   (\<exists>extra new. [''X'', ''P''] = [''X''] @ extra \<and> [[''X''], [''P'']] = [] @ new \<and>
      (\<forall>j. 0 \<le> j \<and> j < length [''X'', ''P''] \<longrightarrow>
         (\<exists>ksa ia sa wa ra i' batch.
            visits (library 100 kids_tree) ([''X''], 0, staleP, 0, []) (ksa, ia, sa, wa, ra) \<and>
            select_batch sa ksa ia [] = Inr (i', batch) \<and> ia \<le> j \<and> j < i' \<and>
            (is_cached sa ([''X'', ''P''] ! j) \<and> [''X'', ''P''] ! j \<notin> set batch \<or>
             \<not> is_cached sa ([''X'', ''P''] ! j) \<and> [''X'', ''P''] ! j \<in> set batch \<and>
             batch \<in> set new))))"
proof -
  let ?env = "library 100 kids_tree"
  let ?m = "\<lparr>im_type = ''json'', im_version = 2, im_data = [payload ''X'']\<rparr>"
  let ?s1 = "(Session sub0)\<lparr>items := [''X'' \<mapsto> payload ''X'', ''C'' \<mapsto> payload ''C'']\<rparr>"
  let ?s' = "(Session sub0)\<lparr>items := [''X'' \<mapsto> payload ''X'', ''C'' \<mapsto> payload ''C'',
                                          ''P'' \<mapsto> payload ''P'']\<rparr>"
  have r: "receive ?env ?m (Some [''X'']) (Session sub0) 1 = Some (None, ?s1, Some [''X'', ''P''], 2)"
    by (simp add: eval_simps)
  from download_appends_and_fetches_parents [THEN conjunct1, rule_format, OF r]
  obtain extra where "Some [''X'', ''P''] = Some ([''X''] @ extra)"
    and se: "set extra = parents (im_data ?m) - set [''X'']"
    by (elim exE conjE)
  then have "extra = [''P'']" by simp
  with se have p: "parents [payload ''X''] - set [''X''] = {''P''}"
    by simp
  have d: "download ?env (Some [''X'']) (Session sub0) 0 =
             Some (None, ?s', [''X'', ''P''], 3, [[''X''], [''P'']])"
    by (simp add: eval_simps)
  have m: "map_option (\<lambda>(err, s, ks, w, requested). (err, ks, requested))
     (download ?env (Some [''X'']) staleP 0) = Some (None, [''X'', ''P''], [[''X''], [''P'']])"
    by (simp add: eval_simps staleP_def)
  then obtain s2 w2 where l: "download_loop ?env [''X''] 0 staleP 0 [] =
             Some (None, s2, [''X'', ''P''], w2, [[''X''], [''P'']])"
    by (auto simp: download_def)
  note c = download_appends_and_fetches_parents [THEN conjunct2, rule_format, OF l]
  show ?thesis
    apply (rule conjI)
    apply (rule exI [of _ ?s1])
    apply (rule r)
    apply (rule conjI)
    apply (rule p)
    apply (rule conjI)
    apply (rule exI [of _ ?s'])
    apply (rule d)
    apply (rule conjI)
    apply (rule m)
    apply (rule conjI)
    apply (rule exI [of _ s2])
    apply (rule exI [of _ w2])
    apply (rule l)
    apply (rule c)
    done
qed

text \<open>
  The claim fails when \<open>items\<close> already holds the parent at the manifest's version:
  \<open>P\<close> is appended to the key list, but the only batch requested is \<open>[X]\<close>.
\<close>

theorem download_cached_parent_counterexample:
  "map_option (\<lambda>(err, s, ks, w, requested). (err, ks, requested))
     (download (library 100 kids_tree) (Some [''X'']) holdsP 0) =
   Some (None, [''X'', ''P''], [[''X'']])"
  by (simp add: eval_simps holdsP_def)


subsection \<open>Termination of download\<close>


subsection \<open>An item that is its own child\<close>





section \<open>Properties of the synchronizer\<close>

lemma drain_queue_filter:
  "drain_queue env (filter (\<lambda>p. available env (plugin_name p)) ps) s w = drain_queue env ps s w"
  by (induction ps arbitrary: w) (auto split: prod.splits option.splits)

lemma dispatch_plugins_run_order:
  "dispatch_plugins env ps s w = drain_queue env (run_order env ps) s w"
proof (induction ps)
  case Nil
  show ?case by (simp add: run_order_def)
next
  case (Cons p ps)
  show ?case
  proof (cases "available env (plugin_name p)")
    case False
    with Cons show ?thesis by (simp add: run_order_def)
  next
    case True
    have "drain_queue env (rev (filter (\<lambda>p. available env (plugin_name p)) ps)) s w1 =
          drain_queue env (rev ps) s w1" for w1
      using drain_queue_filter [of env "rev ps" s w1] by (simp add: rev_filter)
    with True show ?thesis
      by (simp add: run_order_def split: prod.splits option.splits)
  qed
qed

lemma run_order_available:
  "p \<in> set (run_order env ps) \<Longrightarrow> available env (plugin_name p)"
proof (cases "filter (\<lambda>p. available env (plugin_name p)) ps")
  case Nil
  assume "p \<in> set (run_order env ps)"
  with Nil show ?thesis by (simp add: run_order_def)
next
  case (Cons q qs)
  assume "p \<in> set (run_order env ps)"
  with Cons have "p \<in> set (q # qs)" by (simp add: run_order_def)
  with Cons have "p \<in> set (filter (\<lambda>p. available env (plugin_name p)) ps)" by simp
  then show ?thesis by simp
qed

lemma drain_queue_fail_fast:
  "drain_queue env pre s w = (None, w1) \<Longrightarrow> available env (plugin_name p) \<Longrightarrow>
   process env p s w1 = (Some e, w2) \<Longrightarrow>
   drain_queue env (pre @ p # post) s w = (Some e, w2)"
  by (induction pre arbitrary: w) (auto split: prod.splits option.splits if_splits)

text \<open>
  Claim C2, as the code has it. When the session that \<open>execute\<close> returns is modified,
  \<open>synchronize\<close> calls \<open>sub.update\<close> with the session's version and versions after the
  dispatch, provided the dispatch did not fail (or was skipped). When the dispatch
  fails, its error is the result of \<open>synchronize\<close> and \<open>sub.update\<close> is not called: the
  only call on the subscription is \<open>touch\<close>. The dispatch fails with the error of a
  plugin when that plugin fails and the plugins processed before it have succeeded;
  the available plugins are processed in the order \<open>run_order\<close>, the first one and
  then the others from the last backwards.
\<close>

theorem synchronize_persists_after_successful_dispatch:
  "execute env skip None (Session sub) w = Some (None, s', w') \<and> modified s' \<longrightarrow>
     (skip \<longrightarrow>
        synchronize env sub skip w =
          Some (None, s', w', [Touch, Update (version s') (versions s')])) \<and>
     (\<not> skip \<and> dispatch env s' w' = (None, w'') \<longrightarrow>
        synchronize env sub skip w =
          Some (None, s', w'', [Touch, Update (version s') (versions s')])) \<and>
     (\<not> skip \<and> dispatch env s' w' = (Some e, w2) \<longrightarrow>
        synchronize env sub skip w = Some (Some e, s', w2, [Touch])) \<and>
     (\<not> skip \<and> run_order env (plugins (subscription s')) = pre @ p # post \<and>
      drain_queue env pre s' w' = (None, w1) \<and> process env p s' w1 = (Some e, w2) \<longrightarrow>
        dispatch env s' w' = (Some e, w2) \<and>
        synchronize env sub skip w = Some (Some e, s', w2, [Touch]))"
proof (intro impI conjI)
  assume a: "execute env skip None (Session sub) w = Some (None, s', w') \<and> modified s'"
  show "synchronize env sub skip w =
          Some (None, s', w', [Touch, Update (version s') (versions s')])" if skip
    using a that by (simp add: synchronize_def)
  show "synchronize env sub skip w =
          Some (None, s', w'', [Touch, Update (version s') (versions s')])"
    if "\<not> skip \<and> dispatch env s' w' = (None, w'')"
    using a that by (simp add: synchronize_def)
  show "synchronize env sub skip w = Some (Some e, s', w2, [Touch])"
    if "\<not> skip \<and> dispatch env s' w' = (Some e, w2)"
    using a that by (simp add: synchronize_def)
  have d: "dispatch env s' w' = (Some e, w2)"
    if b: "\<not> skip \<and> run_order env (plugins (subscription s')) = pre @ p # post \<and>
      drain_queue env pre s' w' = (None, w1) \<and> process env p s' w1 = (Some e, w2)"
  proof -
    from b have "p \<in> set (run_order env (plugins (subscription s')))" by simp
    then have av: "available env (plugin_name p)" by (rule run_order_available)
    from b have q: "drain_queue env pre s' w' = (None, w1)"
      and f: "process env p s' w1 = (Some e, w2)" by simp_all
    have "drain_queue env (pre @ p # post) s' w' = (Some e, w2)"
      by (rule drain_queue_fail_fast [OF q av f])
    with b show ?thesis
      by (simp add: dispatch_def dispatch_plugins_run_order)
  qed
  show "dispatch env s' w' = (Some e, w2)"
    if "\<not> skip \<and> run_order env (plugins (subscription s')) = pre @ p # post \<and>
      drain_queue env pre s' w' = (None, w1) \<and> process env p s' w1 = (Some e, w2)"
    using that by (rule d)
  show "synchronize env sub skip w = Some (Some e, s', w2, [Touch])"
    if "\<not> skip \<and> run_order env (plugins (subscription s')) = pre @ p # post \<and>
      drain_queue env pre s' w' = (None, w1) \<and> process env p s' w1 = (Some e, w2)"
    using a that d [OF that] by (simp add: synchronize_def)
qed

text \<open>
  With the plugin \<open>notes\<close>, which succeeds, the subscription is updated after the
  dispatch; with \<open>skip\<close> set it is updated without a dispatch. With the plugins
  \<open>notes\<close>, \<open>failing\<close> and \<open>bad\<close>, in this order, \<open>bad\<close> is processed before
  \<open>failing\<close>: its error comes out of \<open>synchronize\<close>, and the subscription is not
  updated.
\<close>

theorem synchronize_persists_after_successful_dispatch_witness:
  "map_option (\<lambda>(err, s, w, calls). (err, modified s, calls))
     (synchronize (library 100 kids_tree)
        (sub0\<lparr>plugins := [\<lparr>plugin_name = ''notes'', plugin_options = None\<rparr>]\<rparr>) False 0) =
   Some (None, True, [Touch, Update (Some 2) (Some [(''X'', 2)])]) \<and>
   map_option (\<lambda>(err, s, w, calls). (err, modified s, calls))
     (synchronize (library 100 kids_tree)
        (sub0\<lparr>plugins := [\<lparr>plugin_name = ''failing'', plugin_options = None\<rparr>]\<rparr>) True 0) =
   Some (None, True, [Touch, Update (Some 2) (Some [(''X'', 2)])]) \<and>
   run_order (library 100 kids_tree)
     [\<lparr>plugin_name = ''notes'', plugin_options = None\<rparr>,
      \<lparr>plugin_name = ''failing'', plugin_options = None\<rparr>,
      \<lparr>plugin_name = ''bad'', plugin_options = None\<rparr>] =
     [\<lparr>plugin_name = ''notes'', plugin_options = None\<rparr>,
      \<lparr>plugin_name = ''bad'', plugin_options = None\<rparr>,
      \<lparr>plugin_name = ''failing'', plugin_options = None\<rparr>] \<and>
   map_option (\<lambda>(err, s, w, calls). (err, modified s, calls))
     (synchronize (library 100 kids_tree)
        (sub0\<lparr>plugins := [\<lparr>plugin_name = ''notes'', plugin_options = None\<rparr>,
                            \<lparr>plugin_name = ''failing'', plugin_options = None\<rparr>,
                            \<lparr>plugin_name = ''bad'', plugin_options = None\<rparr>]\<rparr>) False 0) =
   Some (Some (Error ''bad failed''), True, [Touch])"
proof -
  let ?env = "library 100 kids_tree"
  let ?n = "\<lparr>plugin_name = ''notes'', plugin_options = None\<rparr>"
  let ?f = "\<lparr>plugin_name = ''failing'', plugin_options = None\<rparr>"
  let ?b = "\<lparr>plugin_name = ''bad'', plugin_options = None\<rparr>"
  let ?sub = "sub0\<lparr>plugins := [?n]\<rparr>"
  let ?bad = "sub0\<lparr>plugins := [?f]\<rparr>"
  let ?three = "sub0\<lparr>plugins := [?n, ?f, ?b]\<rparr>"
  let ?s = "(Session ?sub)\<lparr>version := Some 2, versions := Some [(''X'', 2)],
                created := [''X''],
                items := [''X'' \<mapsto> payload ''X'', ''C'' \<mapsto> payload ''C'', ''P'' \<mapsto> payload ''P'']\<rparr>"
  let ?t = "(Session ?three)\<lparr>version := Some 2, versions := Some [(''X'', 2)],
                created := [''X''],
                items := [''X'' \<mapsto> payload ''X'', ''C'' \<mapsto> payload ''C'', ''P'' \<mapsto> payload ''P'']\<rparr>"
  let ?p = "(Session ?bad)\<lparr>version := Some 2, versions := Some [(''X'', 2)], created := [''X'']\<rparr>"
  note C = synchronize_persists_after_successful_dispatch
  have a: "attempt ?env False (Session ?sub) 0 = Some (None, ?s, 4)"
    by (simp add: attempt_def update_def diff_def hasOwnProperty_def sub0_def eval_simps)
  have e: "execute ?env False None (Session ?sub) 0 = Some (None, ?s, 4)"
    by (subst execute.simps) (simp add: a)
  have d: "dispatch ?env ?s 4 = (None, 4)"
    by (simp add: dispatch_def library_def Session_def)
  have m: "modified ?s"
    by (simp add: modified_def Session_def sub0_def)
  have 1: "synchronize ?env ?sub False 0 =
             Some (None, ?s, 4, [Touch, Update (version ?s) (versions ?s)])"
    by (rule C [of ?env False ?sub 0 ?s 4 4, THEN mp, OF conjI [OF e m],
                  THEN conjunct2, THEN conjunct1, THEN mp]) (simp add: d)
  have a': "attempt ?env True (Session ?bad) 0 = Some (None, ?p, 1)"
    by (simp add: attempt_def update_def diff_def hasOwnProperty_def sub0_def eval_simps)
  have e': "execute ?env True None (Session ?bad) 0 = Some (None, ?p, 1)"
    by (subst execute.simps) (simp add: a')
  have m': "modified ?p"
    by (simp add: modified_def Session_def sub0_def)
  have 2: "synchronize ?env ?bad True 0 =
             Some (None, ?p, 1, [Touch, Update (version ?p) (versions ?p)])"
    by (rule C [of ?env True ?bad 0 ?p 1, THEN mp, OF conjI [OF e' m'],
                  THEN conjunct1, THEN mp]) simp
  have r: "run_order ?env [?n, ?f, ?b] = [?n] @ ?b # [?f]"
    by (simp add: run_order_def library_def)
  have a'': "attempt ?env False (Session ?three) 0 = Some (None, ?t, 4)"
    by (simp add: attempt_def update_def diff_def hasOwnProperty_def sub0_def eval_simps)
  have e'': "execute ?env False None (Session ?three) 0 = Some (None, ?t, 4)"
    by (subst execute.simps) (simp add: a'')
  have m'': "modified ?t"
    by (simp add: modified_def Session_def sub0_def)
  have r': "run_order ?env (plugins (subscription ?t)) = [?n] @ ?b # [?f]"
    using r by (simp add: Session_def)
  have q: "drain_queue ?env [?n] ?t 4 = (None, 4)"
    by (simp add: library_def)
  have f: "process ?env ?b ?t 4 = (Some (Error ''bad failed''), 4)"
    by (simp add: library_def)
  have 3: "synchronize ?env ?three False 0 = Some (Some (Error ''bad failed''), ?t, 4, [Touch])"
    by (rule C [of ?env False ?three 0 ?t 4 _ _ _ "[?n]" ?b "[?f]" 4, THEN mp, OF conjI [OF e'' m''],
                  THEN conjunct2, THEN conjunct2, THEN conjunct2, THEN mp, THEN conjunct2])
       (simp only: r' q f simp_thms)
  show ?thesis
    unfolding 1 2 3 using m m' m'' r by simp
qed

text \<open>
  The library is at version 2, the subscription at version 1 with the one plugin
  \<open>failing\<close>: the session is modified, the plugin's error comes out of \<open>synchronize\<close>,
  and the subscription has been touched but not updated.
\<close>

theorem synchronize_plugin_failure_counterexample:
  "map_option (\<lambda>(err, s, w, calls). (err, modified s, calls))
     (synchronize (library 100 kids_tree)
        (sub0\<lparr>plugins := [\<lparr>plugin_name = ''failing'', plugin_options = None\<rparr>]\<rparr>) False 0) =
   Some (Some (Error ''plugin failed''), True, [Touch])"
proof -
  let ?env = "library 100 kids_tree"
  let ?sub = "sub0\<lparr>plugins := [\<lparr>plugin_name = ''failing'', plugin_options = None\<rparr>]\<rparr>"
  let ?s = "(Session ?sub)\<lparr>version := Some 2, versions := Some [(''X'', 2)],
                created := [''X''],
                items := [''X'' \<mapsto> payload ''X'', ''C'' \<mapsto> payload ''C'', ''P'' \<mapsto> payload ''P'']\<rparr>"
  have a: "attempt ?env False (Session ?sub) 0 = Some (None, ?s, 4)"
    by (simp add: attempt_def update_def diff_def hasOwnProperty_def sub0_def eval_simps)
  have e: "execute ?env False None (Session ?sub) 0 = Some (None, ?s, 4)"
    by (subst execute.simps) (simp add: a)
  have d: "dispatch ?env ?s 4 = (Some (Error ''plugin failed''), 4)"
    by (simp add: dispatch_def library_def Session_def)
  have m: "modified ?s"
    by (simp add: modified_def Session_def sub0_def)
  show ?thesis
    by (simp add: synchronize_def e d m)
qed

end
